theory Spec2Isabelle
  imports Main "HOL-Library.Word"
begin

unbundle bit_operations_syntax

section \<open>Machine integers\<close>

type_synonym int64 = "64 word"
type_synonym byte = "8 word"

text \<open>
  A Go \<open>int\<close> or \<open>int64\<close> that is computed with is an \<open>int\<close> between \<open>- 2 ^ 63\<close> and
  \<open>2 ^ 63 - 1\<close>; every sum and difference of the source is wrapped by \<open>wrap64\<close>, the
  two's complement reading of its low 64 bits.
\<close>

definition wrap64 :: "int \<Rightarrow> int" where
  "wrap64 x = (x + 2 ^ 63) mod 2 ^ 64 - 2 ^ 63"

definition isInt64 :: "int \<Rightarrow> bool" where
  "isInt64 x = (- (2 ^ 63) \<le> x \<and> x < 2 ^ 63)"

section \<open>The flush buffer\<close>

datatype panic = SliceBoundsOutOfRange | TailCASFailed

datatype error = ErrFBReadFailed

text \<open>
  A slice expression \<open>a[lo:hi]\<close> on a slice of capacity \<open>cap\<close> panics unless
  \<open>0 \<le> lo \<le> hi \<le> cap\<close>. The slabs of the flush buffers are made by
  \<open>make([]byte, sz)\<close>, so their capacity is their length.
\<close>

definition sliceOK :: "int \<Rightarrow> int \<Rightarrow> nat \<Rightarrow> bool" where
  "sliceOK lo hi cap = (0 \<le> lo \<and> lo \<le> hi \<and> hi \<le> int cap)"

text \<open>A slice of the slab \<open>fb.b\<close>: the view \<open>fb.b[low:high]\<close>.\<close>

record slice =
  low :: nat
  high :: nat

text \<open>
  \<open>type flushBuffer struct\<close>. \<open>next\<close> is the ring's successor, kept by the store
  below as an index; \<open>callb\<close> is the flush callback: \<open>Done\<close> reports that it invokes
  it, and the store runs it.
\<close>

record flushBuffer =
  seqno :: "64 word"
  baseOffset :: int
  state :: "64 word"
  b :: "byte list"
  doCommit :: bool
  trimOffset :: "64 word"

text \<open>
  State encoding: \<open>[32 bit offset][14 bit void][16 bit nwriters][1 bit reset][1 bit full]\<close>.
  \<open>decodeState\<close> returns \<open>(isfull, reset, nwriters, offset)\<close>; \<open>uint64(n)\<close> of an
  \<open>int\<close> is \<open>word_of_int n\<close>.
\<close>

definition decodeState :: "64 word \<Rightarrow> bool \<times> bool \<times> int \<times> int" where
  "decodeState st =
     (st AND 1 = 1, st AND 2 = 2, uint (drop_bit 2 st AND 0xffff), uint (drop_bit 32 st))"

definition encodeState :: "bool \<Rightarrow> int \<Rightarrow> int \<Rightarrow> 64 word" where
  "encodeState isfull nwriters offset =
     (let isfullbits = (if isfull then 1 else 0);
          nwritersbits = push_bit 2 (word_of_int nwriters);
          offsetbits = push_bit 32 (word_of_int offset)
      in isfullbits OR nwritersbits OR offsetbits)"

definition resetState :: "64 word \<Rightarrow> 64 word" where
  "resetState st = st OR 2"

definition isResetState :: "64 word \<Rightarrow> bool" where
  "isResetState st = (0 < st AND 2)"

text \<open>\<open>binary.BigEndian.PutUint32(bs[i:i+4], v)\<close> and \<open>binary.BigEndian.Uint32(bs[i:i+4])\<close>.\<close>

definition PutUint32 :: "byte list \<Rightarrow> nat \<Rightarrow> 32 word \<Rightarrow> byte list" where
  "PutUint32 bs i v =
     bs[i := ucast (drop_bit 24 v), i + 1 := ucast (drop_bit 16 v),
        i + 2 := ucast (drop_bit 8 v), i + 3 := ucast v]"

definition Uint32 :: "byte list \<Rightarrow> nat \<Rightarrow> 32 word" where
  "Uint32 bs i =
     ucast (bs ! (i + 3)) OR push_bit 8 (ucast (bs ! (i + 2))) OR
     push_bit 16 (ucast (bs ! (i + 1))) OR push_bit 24 (ucast (bs ! i))"

text \<open>\<open>copy(dst, src)\<close> copies \<open>min(len(dst), len(src))\<close> bytes.\<close>

definition copy :: "byte list \<Rightarrow> byte list \<Rightarrow> byte list" where
  "copy dst src = take (min (length dst) (length src)) src @ drop (length src) dst"

definition newFlushBuffer :: "nat \<Rightarrow> flushBuffer" where
  "newFlushBuffer sz =
     \<lparr> seqno = 0, baseOffset = 0, state = encodeState False 1 0, b = replicate sz 0,
       doCommit = False, trimOffset = 0 \<rparr>"

definition EndOffset :: "flushBuffer \<Rightarrow> int" where
  "EndOffset fb =
     (case decodeState (state fb) of (_, _, _, offset) \<Rightarrow> wrap64 (baseOffset fb + offset))"

text \<open>
  \<open>fb.Bytes()\<close> is the slice \<open>fb.b[:offset]\<close>, which panics beyond the capacity.
\<close>

definition Bytes :: "flushBuffer \<Rightarrow> panic + byte list" where
  "Bytes fb =
     (case decodeState (state fb) of (_, _, _, offset) \<Rightarrow>
        if sliceOK 0 offset (length (b fb)) then Inr (take (nat offset) (b fb))
        else Inl SliceBoundsOutOfRange)"

definition IsFull :: "flushBuffer \<Rightarrow> bool" where
  "IsFull fb = (case decodeState (state fb) of (isfull, _, _, _) \<Rightarrow> isfull)"

definition IsReset :: "flushBuffer \<Rightarrow> bool" where
  "IsReset fb = isResetState (state fb)"

definition Reset :: "flushBuffer \<Rightarrow> flushBuffer" where
  "Reset fb = fb\<lparr> baseOffset := 0, doCommit := False, trimOffset := 0,
                  state := resetState (state fb) \<rparr>"

text \<open>
  Every operation below loads the state word, computes the new word and installs it with
  a compare-and-swap on the word it loaded. The model is of one thread: the word has not
  changed since the load, so the compare-and-swap succeeds and the \<open>goto retry\<close> of a
  failed one is never taken. Each operation is thus one atomic step at its successful
  compare-and-swap, which is how concurrent calls are ordered too.
\<close>

text \<open>
  \<open>Done\<close>: the second component tells whether \<open>fb.callb(fb)\<close> is invoked.
\<close>

definition Done :: "flushBuffer \<Rightarrow> flushBuffer \<times> bool" where
  "Done fb =
     (case decodeState (state fb) of (isfull, _, nw, offset) \<Rightarrow>
        (fb\<lparr> state := encodeState isfull (nw - 1) offset \<rparr>, nw = 1 \<and> isfull))"

text \<open>\<open>TryClose(thr)\<close> returns \<open>(markedFull, lssOff)\<close>.\<close>

definition TryClose :: "flushBuffer \<Rightarrow> int \<Rightarrow> (bool \<times> int) \<times> flushBuffer" where
  "TryClose fb thr =
     (case decodeState (state fb) of (isfull, reset, nw, offset) \<Rightarrow>
        if offset < thr then ((False, 0), fb)
        else if \<not> isfull \<and> \<not> reset then
          (let fb1 = fb\<lparr> state := encodeState True nw offset \<rparr>
           in ((True, EndOffset fb1), fb1))
        else ((False, 0), fb))"

text \<open>
  \<open>Read(off, buf)\<close> returns \<open>(l, err)\<close>; the model also returns \<open>buf\<close> after the copy,
  the buffer, and whether the \<open>Done\<close> it calls invokes the callback.
\<close>

definition Read ::
  "flushBuffer \<Rightarrow> int \<Rightarrow> byte list \<Rightarrow>
   panic + ((int \<times> error option) \<times> byte list \<times> flushBuffer \<times> bool)" where
  "Read fb off buf =
     (case decodeState (state fb) of (isfull, reset, nw, offset) \<Rightarrow>
        if 0 < nw \<and> \<not> reset then
          (let fb1 = fb\<lparr> state := encodeState isfull (nw + 1) offset \<rparr>;
               start = baseOffset fb;
               end = wrap64 (start + offset)
           in if start \<le> off \<and> off < end then
                (let payloadOffset = wrap64 (off - start);
                     dataOffset = wrap64 (payloadOffset + 4)
                 in if \<not> sliceOK payloadOffset dataOffset (length (b fb))
                    then Inl SliceBoundsOutOfRange
                    else
                      (let l = uint (Uint32 (b fb) (nat payloadOffset))
                       in if \<not> sliceOK dataOffset (wrap64 (dataOffset + l)) (length (b fb))
                          then Inl SliceBoundsOutOfRange
                          else
                            (case Done fb1 of (fb2, fired) \<Rightarrow>
                               Inr ((l, None),
                                    copy buf (take (nat l) (drop (nat dataOffset) (b fb))),
                                    fb2, fired))))
              else (case Done fb1 of (fb2, fired) \<Rightarrow>
                      Inr ((0, Some ErrFBReadFailed), buf, fb2, fired)))
        else Inr ((0, Some ErrFBReadFailed), buf, fb, False))"

text \<open>
  The first loop of \<open>Alloc\<close>: \<open>size += sz + headerFBSize\<close> over the sizes.
\<close>

definition allocSize :: "int list \<Rightarrow> int" where
  "allocSize sizes = foldl (\<lambda>size sz. wrap64 (size + wrap64 (sz + 4))) 0 sizes"

text \<open>
  The second loop of \<open>Alloc\<close>, from \<open>bufOffset\<close> on: per chunk the header is written,
  the slice \<open>fb.b[bufOffset+4 : bufOffset+4+sizes[i]]\<close> and the log offset
  \<open>lssOffset(fb.baseOffset + int64(bufOffset))\<close> are taken. It returns the offsets, the
  slices and the slab.
\<close>

fun allocChunks ::
  "int \<Rightarrow> int list \<Rightarrow> int \<Rightarrow> byte list \<Rightarrow> panic + (64 word list \<times> slice list \<times> byte list)" where
  "allocChunks base [] bufOffset bs = Inr ([], [], bs)"
| "allocChunks base (sz # szs) bufOffset bs =
     (if \<not> sliceOK bufOffset (wrap64 (bufOffset + 4)) (length bs)
      then Inl SliceBoundsOutOfRange
      else
        (let bs1 = PutUint32 bs (nat bufOffset) (word_of_int sz);
             lo = wrap64 (bufOffset + 4);
             hi = wrap64 (wrap64 (bufOffset + 4) + sz)
         in if \<not> sliceOK lo hi (length bs) then Inl SliceBoundsOutOfRange
            else
              (case allocChunks base szs (wrap64 (bufOffset + wrap64 (sz + 4))) bs1 of
                 Inl e \<Rightarrow> Inl e
               | Inr (offs, bufs, bs2) \<Rightarrow>
                   Inr (word_of_int (wrap64 (base + bufOffset)) # offs,
                        \<lparr> low = nat lo, high = nat hi \<rparr> # bufs, bs2))))"

text \<open>
  \<open>Alloc(sizes)\<close> returns \<open>(status, markedFull, offs, bufs)\<close>, and the buffer.
\<close>

definition Alloc ::
  "flushBuffer \<Rightarrow> int list \<Rightarrow>
   panic + ((bool \<times> bool \<times> 64 word list \<times> slice list) \<times> flushBuffer)" where
  "Alloc fb sizes =
     (case decodeState (state fb) of (isfull, reset, nw, offset) \<Rightarrow>
        if isfull \<or> reset then Inr ((False, False, [], []), fb)
        else
          (let size = allocSize sizes;
               newOffset = wrap64 (offset + size)
           in if int (length (b fb)) < newOffset then
                Inr ((False, True, [], []), fb\<lparr> state := encodeState True nw offset \<rparr>)
              else
                (case allocChunks (baseOffset fb) sizes offset (b fb) of
                   Inl e \<Rightarrow> Inl e
                 | Inr (offs, bufs, bs) \<Rightarrow>
                     Inr ((True, False, offs, bufs),
                          fb\<lparr> state := encodeState False (nw + 1) newOffset, b := bs \<rparr>))))"

text \<open>The decoded writer count and offset of a buffer.\<close>

definition nwriters :: "flushBuffer \<Rightarrow> int" where
  "nwriters fb = (case decodeState (state fb) of (_, _, nw, _) \<Rightarrow> nw)"

definition offsetOf :: "flushBuffer \<Rightarrow> int" where
  "offsetOf fb = (case decodeState (state fb) of (_, _, _, offset) \<Rightarrow> offset)"

subsection \<open>Sequences of operations on one buffer\<close>

text \<open>
  The operations that callers apply to a buffer between two resets, and a run of them
  on one buffer. The run counts the invocations of the flush callback (what the callback
  does to the store is the store's part, below) and records, for every successful
  \<open>Alloc\<close>, the log offset and the size of each of its chunks.
\<close>

datatype fbOp = OpAlloc "int list" | OpTryClose int | OpRead int "byte list" | OpDone

record fbRun =
  buffer :: flushBuffer
  callbacks :: nat
  reserved :: "(64 word \<times> int) list list"

fun step :: "fbRun \<Rightarrow> fbOp \<Rightarrow> panic + fbRun" where
  "step r (OpAlloc sizes) =
     (case Alloc (buffer r) sizes of
        Inl e \<Rightarrow> Inl e
      | Inr ((status, markedFull, offs, bufs), fb') \<Rightarrow>
          Inr (r\<lparr> buffer := fb',
                   reserved := (if status then reserved r @ [zip offs sizes] else reserved r) \<rparr>))"
| "step r (OpTryClose thr) = Inr (r\<lparr> buffer := snd (TryClose (buffer r) thr) \<rparr>)"
| "step r (OpRead off buf) =
     (case Read (buffer r) off buf of
        Inl e \<Rightarrow> Inl e
      | Inr (res, buf', fb', fired) \<Rightarrow>
          Inr (r\<lparr> buffer := fb', callbacks := callbacks r + (if fired then 1 else 0) \<rparr>))"
| "step r OpDone =
     (case Done (buffer r) of (fb', fired) \<Rightarrow>
        Inr (r\<lparr> buffer := fb', callbacks := callbacks r + (if fired then 1 else 0) \<rparr>))"

fun run :: "fbRun \<Rightarrow> fbOp list \<Rightarrow> panic + fbRun" where
  "run r [] = Inr r"
| "run r (x # xs) = (case step r x of Inl e \<Rightarrow> Inl e | Inr r' \<Rightarrow> run r' xs)"

text \<open>
  How the store uses the writer count: a buffer is created with one count, which belongs
  to whoever closes it and is released by that caller's \<open>Done\<close> after the buffer is
  marked full; every other \<open>Done\<close> releases the count of a reservation. So \<open>Done\<close> is
  called with a count of at least one, and of at least two while the buffer is not full.
  The count is a 16-bit field: \<open>Alloc\<close> and \<open>Read\<close> add one to it, which fits below
  \<open>65535\<close>.
\<close>

fun holdsCount :: "flushBuffer \<Rightarrow> fbOp \<Rightarrow> bool" where
  "holdsCount fb OpDone = (1 \<le> nwriters fb \<and> (IsFull fb \<or> 2 \<le> nwriters fb))"
| "holdsCount fb (OpAlloc sizes) = (nwriters fb < 65535)"
| "holdsCount fb (OpRead off buf) = (nwriters fb < 65535)"
| "holdsCount fb (OpTryClose thr) = True"

fun obeys :: "fbRun \<Rightarrow> fbOp list \<Rightarrow> bool" where
  "obeys r [] = True"
| "obeys r (x # xs) =
     (holdsCount (buffer r) x \<and>
      (case step r x of Inl e \<Rightarrow> True | Inr r' \<Rightarrow> obeys r' xs))"

text \<open>The sizes of an \<open>Alloc\<close> are Go \<open>int\<close>s.\<close>

fun sizesInt64 :: "fbOp \<Rightarrow> bool" where
  "sizesInt64 (OpAlloc sizes) = list_all isInt64 sizes"
| "sizesInt64 x = True"

text \<open>
  The in-buffer position of each chunk of a reservation that starts at \<open>p\<close>: every
  chunk begins where the previous chunk's header and payload end.
\<close>

fun chunkPositions :: "int \<Rightarrow> int list \<Rightarrow> int list" where
  "chunkPositions p [] = []"
| "chunkPositions p (sz # szs) = p # chunkPositions (p + sz + 4) szs"

text \<open>The four bytes of a big-endian \<open>uint32\<close>.\<close>

definition be32 :: "32 word \<Rightarrow> byte list" where
  "be32 v = [ucast (drop_bit 24 v), ucast (drop_bit 16 v), ucast (drop_bit 8 v), ucast v]"

text \<open>
  Chunks given as (log offset, size) follow one another without a gap: each offset is the
  previous offset plus the previous size plus the 4-byte header.
\<close>

fun consecutive :: "(64 word \<times> int) list \<Rightarrow> bool" where
  "consecutive ((o1, s1) # (o2, s2) # rest) =
     (uint o2 = uint o1 + s1 + 4 \<and> consecutive ((o2, s2) # rest))"
| "consecutive rest = True"

text \<open>
  The byte range \<open>[offset, offset + size + 4)\<close> of the first chunk ends where the
  second begins, or before.
\<close>

definition endsBefore :: "64 word \<times> int \<Rightarrow> 64 word \<times> int \<Rightarrow> bool" where
  "endsBefore c1 c2 = (uint (fst c1) + snd c1 + 4 \<le> uint (fst c2))"

text \<open>
  Every chunk reserved so far has a size of at least zero and ends at or before the
  buffer's current end offset.
\<close>

definition keptBelow :: "fbRun \<Rightarrow> bool" where
  "keptBelow r =
     list_all (\<lambda>c. 0 \<le> snd c \<and>
                 uint (fst c) + snd c + 4 \<le> baseOffset (buffer r) + offsetOf (buffer r))
       (concat (reserved r))"

section \<open>The log-structured store\<close>

text \<open>
  Modelled from the spec: the append-only log (\<open>Log\<close>, made by \<open>newLog\<close>), which is
  not part of these sources. The spec gives it \<open>Append(bytes)\<close>, \<open>Tail()\<close>, \<open>Head()\<close>,
  \<open>Trim(offset)\<close> and \<open>Commit()\<close>. The model keeps the appended bytes, the last trim
  offset and the number of commits; \<open>Append\<close> succeeds (in the source a failing
  \<open>Append\<close> is retried by \<open>flush\<close> for ever).
\<close>

record Log =
  logData :: "byte list"
  logTrim :: int
  logCommits :: nat

definition Tail :: "Log \<Rightarrow> int" where
  "Tail l = int (length (logData l))"

definition Append :: "Log \<Rightarrow> byte list \<Rightarrow> Log" where
  "Append l bytes = l\<lparr> logData := logData l @ bytes \<rparr>"

definition Trim :: "Log \<Rightarrow> int \<Rightarrow> Log" where
  "Trim l off = l\<lparr> logTrim := off \<rparr>"

definition Commit :: "Log \<Rightarrow> Log" where
  "Commit l = l\<lparr> logCommits := Suc (logCommits l) \<rparr>"

text \<open>
  \<open>type lsStore struct\<close>, as far as reserving space uses it. The flush buffers of the
  ring are a list, \<open>fb.next\<close> of the buffer at index \<open>i\<close> being the buffer at
  \<open>nextIndex\<close>; \<open>head\<close> and \<open>tail\<close> are indices into it. \<open>commitDue\<close> stands for
  the clock test \<open>time.Since(s.lastCommitTS) > s.commitDuration\<close>.
\<close>

record lsStore =
  ring :: "flushBuffer list"
  head :: nat
  tail :: nat
  lssTrimOffset :: "64 word"
  log :: Log
  bytesWritten :: int
  commitDue :: bool

definition forceFlushThreshold :: int where
  "forceFlushThreshold = 1024 * 512"

definition nextIndex :: "lsStore \<Rightarrow> nat \<Rightarrow> nat" where
  "nextIndex s i = (i + 1) mod length (ring s)"

definition setBuffer :: "lsStore \<Rightarrow> nat \<Rightarrow> flushBuffer \<Rightarrow> lsStore" where
  "setBuffer s i fb = s\<lparr> ring := (ring s)[i := fb] \<rparr>"

text \<open>
  \<open>newLSStore\<close>: the head buffer and \<open>nbufs - 1\<close> further buffers, each reset at once,
  linked in a circle; the head buffer starts at the log's tail.
\<close>

definition newLSStore :: "Log \<Rightarrow> nat \<Rightarrow> nat \<Rightarrow> bool \<Rightarrow> lsStore" where
  "newLSStore l bufSize nbufs due =
     \<lparr> ring = (newFlushBuffer bufSize)\<lparr> baseOffset := Tail l \<rparr> #
              replicate (nbufs - 1) (Reset (newFlushBuffer bufSize)),
       head = 0, tail = 0, lssTrimOffset = 0, log = l, bytesWritten = 0, commitDue = due \<rparr>"

text \<open>
  \<open>initNextBuffer(currFb)\<close>. It waits in \<open>for !nextFb.IsReset() { runtime.Gosched() }\<close>;
  in a run of one thread nothing resets the buffer meanwhile, so the loop does not end:
  the result is \<open>None\<close>. A failed compare-and-swap of the tail panics.
\<close>

definition initNextBuffer :: "lsStore \<Rightarrow> nat \<Rightarrow> (panic + lsStore) option" where
  "initNextBuffer s cur =
     (let nx = nextIndex s cur;
          currFb = ring s ! cur;
          nextFb = ring s ! nx
      in if \<not> IsReset nextFb then None
         else
           (let nextFb1 = nextFb\<lparr> baseOffset := EndOffset currFb,
                                   seqno := seqno currFb + 1,
                                   state := encodeState False 2 0 \<rparr>;
                s1 = setBuffer s nx nextFb1
            in if tail s1 = cur then Some (Inr (s1\<lparr> tail := nx \<rparr>))
               else Some (Inl TailCASFailed)))"

text \<open>
  \<open>flush(fb)\<close>, the callback of every buffer of the ring, for the buffer at index \<open>i\<close>.
  The two calls \<open>nextFb.Done()\<close> are written out with the callback they may invoke,
  which is \<open>flush\<close> again. \<open>None\<close> is a run that does not return.
\<close>

partial_function (option) flush :: "lsStore \<Rightarrow> nat \<Rightarrow> (panic + lsStore) option" where
  "flush s i =
     (case Bytes (ring s ! i) of
        Inl e \<Rightarrow> Some (Inl e)
      | Inr bytes \<Rightarrow>
          (let fb = ring s ! i;
               s1 = s\<lparr> log := Append (log s) bytes,
                        bytesWritten := wrap64 (bytesWritten s + int (length bytes)) \<rparr>;
               s2 = (if 0 < trimOffset fb then s1\<lparr> lssTrimOffset := trimOffset fb \<rparr> else s1);
               s3 = (if doCommit fb \<or> commitDue s2
                     then s2\<lparr> log := Commit (Trim (log s2) (sint (lssTrimOffset s2))) \<rparr>
                     else s2);
               s4 = setBuffer s3 i (Reset fb);
               nx = nextIndex s4 i;
               s5 = s4\<lparr> head := nx \<rparr>
           in (case TryClose (ring s5 ! nx) forceFlushThreshold of
                 ((closed, endOff), nfb) \<Rightarrow>
                   (let s6 = setBuffer s5 nx nfb
                    in if closed then
                         (case initNextBuffer s6 nx of
                            None \<Rightarrow> None
                          | Some (Inl e) \<Rightarrow> Some (Inl e)
                          | Some (Inr s7) \<Rightarrow>
                              (case Done (ring s7 ! nx) of
                                 (fb8, fired) \<Rightarrow>
                                   Option.bind
                                     (if fired then flush (setBuffer s7 nx fb8) nx
                                      else Some (Inr (setBuffer s7 nx fb8)))
                                     (\<lambda>r. case r of
                                        Inl e \<Rightarrow> Some (Inl e)
                                      | Inr s9 \<Rightarrow>
                                          (case Done (ring s9 ! nx) of
                                             (fb10, fired') \<Rightarrow>
                                               if fired' then flush (setBuffer s9 nx fb10) nx
                                               else Some (Inr (setBuffer s9 nx fb10))))))
                       else
                         (case Done (ring s6 ! nx) of
                            (fb8, fired) \<Rightarrow>
                              if fired then flush (setBuffer s6 nx fb8) nx
                              else Some (Inr (setBuffer s6 nx fb8)))))))"

text \<open>
  \<open>fb.Done()\<close> on the buffer at index \<open>i\<close> of the store, with the callback it may
  invoke; \<open>FinalizeWrite(res)\<close> is this call on the buffer that served the reservation.
\<close>

definition DoneS :: "lsStore \<Rightarrow> nat \<Rightarrow> (panic + lsStore) option" where
  "DoneS s i =
     (case Done (ring s ! i) of
        (fb1, fired) \<Rightarrow>
          if fired then flush (setBuffer s i fb1) i else Some (Inr (setBuffer s i fb1)))"

definition FinalizeWrite :: "lsStore \<Rightarrow> nat \<Rightarrow> (panic + lsStore) option" where
  "FinalizeWrite s res = DoneS s res"

text \<open>
  \<open>ReserveSpaceMulti(sizes)\<close> returns the offsets, the slices and the buffer that
  serves them (its index). It has no error result. \<open>runtime.Gosched(); goto retry\<close>
  finds the store as it left it when no other thread runs.
\<close>

partial_function (option) ReserveSpaceMulti ::
  "lsStore \<Rightarrow> int list \<Rightarrow> (panic + ((64 word list \<times> slice list \<times> nat) \<times> lsStore)) option" where
  "ReserveSpaceMulti s sizes =
     (let fb = tail s
      in case Alloc (ring s ! fb) sizes of
           Inl e \<Rightarrow> Some (Inl e)
         | Inr ((success, markedFull, offsets, bufs), fb1) \<Rightarrow>
             (let s1 = setBuffer s fb fb1
              in if \<not> success then
                   (if markedFull then
                      (case initNextBuffer s1 fb of
                         None \<Rightarrow> None
                       | Some (Inl e) \<Rightarrow> Some (Inl e)
                       | Some (Inr s2) \<Rightarrow>
                           (case DoneS s2 fb of
                              None \<Rightarrow> None
                            | Some (Inl e) \<Rightarrow> Some (Inl e)
                            | Some (Inr s3) \<Rightarrow> ReserveSpaceMulti s3 sizes))
                    else ReserveSpaceMulti s1 sizes)
                 else Some (Inr ((offsets, bufs, fb), s1))))"

text \<open>\<open>ReserveSpace(size)\<close>: the single-record reservation.\<close>

definition ReserveSpace ::
  "lsStore \<Rightarrow> int \<Rightarrow> (panic + ((64 word \<times> slice \<times> nat) \<times> lsStore)) option" where
  "ReserveSpace s sz =
     (case ReserveSpaceMulti s [sz] of
        None \<Rightarrow> None
      | Some (Inl e) \<Rightarrow> Some (Inl e)
      | Some (Inr ((offs, bs, res), s1)) \<Rightarrow> Some (Inr ((hd offs, hd bs, res), s1)))"

text \<open>The capacities of the buffers of the ring.\<close>

definition caps :: "lsStore \<Rightarrow> nat list" where
  "caps s = map (\<lambda>fb. length (b fb)) (ring s)"

text \<open>
  The second store has the buffers of the first, with their capacities, and a tail inside
  the ring if the first has.
\<close>

definition sameRing :: "lsStore \<Rightarrow> lsStore \<Rightarrow> bool" where
  "sameRing s s' = (caps s' = caps s \<and> (tail s < length (ring s) \<longrightarrow> tail s' < length (ring s')))"

text \<open>
  A store of two buffers as \<open>newLSStore\<close> makes it and as every rotation leaves it
  when nothing could be reserved: the tail buffer is open, holds nothing and has its one
  initial writer, the other buffer is reset; \<open>sz + 4\<close> exceeds both capacities.
\<close>

definition rotating :: "int \<Rightarrow> lsStore \<Rightarrow> bool" where
  "rotating sz s =
     (length (ring s) = 2 \<and> tail s < 2 \<and>
      decodeState (state (ring s ! tail s)) = (False, False, 1, 0) \<and>
      IsReset (ring s ! (1 - tail s)) \<and>
      int (length (b (ring s ! 0))) < sz + 4 \<and> int (length (b (ring s ! 1))) < sz + 4)"

section \<open>plasma.go: the statistics record\<close>

text \<open>
  \<open>type Stats struct\<close>, field by field and in the order of the source. The four
  \<open>float64\<close> fields are of a type parameter \<open>'f\<close>: no claim computes with them.
\<close>

record 'f Stats =
  Compacts :: int64
  Splits :: int64
  Merges :: int64
  Inserts :: int64
  Deletes :: int64
  CompactConflicts :: int64
  SplitConflicts :: int64
  MergeConflicts :: int64
  InsertConflicts :: int64
  DeleteConflicts :: int64
  SwapInConflicts :: int64
  BytesIncoming :: int64
  BytesWritten :: int64
  FlushDataSz :: int64
  MemSz :: int64
  MemSzIndex :: int64
  AllocSz :: int64
  FreeSz :: int64
  ReclaimSz :: int64
  NumRecordAllocs :: int64
  NumRecordFrees :: int64
  NumRecordSwapOut :: int64
  NumRecordSwapIn :: int64
  AllocSzIndex :: int64
  FreeSzIndex :: int64
  ReclaimSzIndex :: int64
  NumPages :: int64
  LSSFrag :: int64
  LSSDataSize :: int64
  LSSUsedSpace :: int64
  NumLSSReads :: int64
  LSSReadBytes :: int64
  NumLSSCleanerReads :: int64
  LSSCleanerReadBytes :: int64
  CacheHits :: int64
  CacheMisses :: int64
  WriteAmp :: 'f
  WriteAmpAvg :: 'f
  CacheHitRatio :: 'f
  ResidentRatio :: 'f

text \<open>
  \<open>func (s *Stats) Merge(o *Stats)\<close>. The receiver and the argument are two objects
  (in \<open>GetStats\<close> the receiver is a local variable), so the function returns both as
  the call leaves them. Line 154 of the source assigns to \<open>o.ReclaimSzIndex\<close>, not to
  \<open>s.ReclaimSzIndex\<close>.
\<close>

definition Merge :: "'f Stats \<Rightarrow> 'f Stats \<Rightarrow> 'f Stats \<times> 'f Stats" where
  "Merge s other =
    (s\<lparr> Compacts := Compacts s + Compacts other,
        Splits := Splits s + Splits other,
        Merges := Merges s + Merges other,
        Inserts := Inserts s + Inserts other,
        Deletes := Deletes s + Deletes other,
        CompactConflicts := CompactConflicts s + CompactConflicts other,
        SplitConflicts := SplitConflicts s + SplitConflicts other,
        MergeConflicts := MergeConflicts s + MergeConflicts other,
        InsertConflicts := InsertConflicts s + InsertConflicts other,
        DeleteConflicts := DeleteConflicts s + DeleteConflicts other,
        SwapInConflicts := SwapInConflicts s + SwapInConflicts other,
        AllocSz := AllocSz s + AllocSz other,
        FreeSz := FreeSz s + FreeSz other,
        ReclaimSz := ReclaimSz s + ReclaimSz other,
        AllocSzIndex := AllocSzIndex s + AllocSzIndex other,
        FreeSzIndex := FreeSzIndex s + FreeSzIndex other,
        NumRecordAllocs := NumRecordAllocs s + NumRecordAllocs other,
        NumRecordFrees := NumRecordFrees s + NumRecordFrees other,
        NumRecordSwapOut := NumRecordSwapOut s + NumRecordSwapOut other,
        NumRecordSwapIn := NumRecordSwapIn s + NumRecordSwapIn other,
        BytesIncoming := BytesIncoming s + BytesIncoming other,
        NumLSSReads := NumLSSReads s + NumLSSReads other,
        LSSReadBytes := LSSReadBytes s + LSSReadBytes other,
        CacheHits := CacheHits s + CacheHits other,
        CacheMisses := CacheMisses s + CacheMisses other \<rparr>,
     other\<lparr> ReclaimSzIndex := ReclaimSzIndex other + ReclaimSzIndex other \<rparr>)"

text \<open>
  The zero value of \<open>Stats\<close> (\<open>var sts Stats\<close>); \<open>fzero\<close> is the float \<open>0\<close>.
\<close>

definition zeroStats :: "'f \<Rightarrow> 'f Stats" where
  "zeroStats fzero =
    \<lparr> Compacts = 0, Splits = 0, Merges = 0, Inserts = 0, Deletes = 0,
      CompactConflicts = 0, SplitConflicts = 0, MergeConflicts = 0,
      InsertConflicts = 0, DeleteConflicts = 0, SwapInConflicts = 0,
      BytesIncoming = 0, BytesWritten = 0, FlushDataSz = 0, MemSz = 0, MemSzIndex = 0,
      AllocSz = 0, FreeSz = 0, ReclaimSz = 0,
      NumRecordAllocs = 0, NumRecordFrees = 0, NumRecordSwapOut = 0, NumRecordSwapIn = 0,
      AllocSzIndex = 0, FreeSzIndex = 0, ReclaimSzIndex = 0, NumPages = 0,
      LSSFrag = 0, LSSDataSize = 0, LSSUsedSpace = 0, NumLSSReads = 0, LSSReadBytes = 0,
      NumLSSCleanerReads = 0, LSSCleanerReadBytes = 0, CacheHits = 0, CacheMisses = 0,
      WriteAmp = fzero, WriteAmpAvg = fzero, CacheHitRatio = fzero, ResidentRatio = fzero \<rparr>"

text \<open>
  The loop of \<open>GetStats\<close>, \<open>for w := s.wCtxList; w != nil; w = w.next { sts.Merge(w.sts) }\<close>,
  over the statistics of the write contexts in list order. It returns the accumulator
  and the contexts' statistics as the calls leave them.
\<close>

fun mergeCtxs :: "'f Stats \<Rightarrow> 'f Stats list \<Rightarrow> 'f Stats \<times> 'f Stats list" where
  "mergeCtxs sts [] = (sts, [])"
| "mergeCtxs sts (w # ws) =
     (case Merge sts w of (sts1, w1) \<Rightarrow>
        (case mergeCtxs sts1 ws of (sts2, ws1) \<Rightarrow> (sts2, w1 # ws1)))"

text \<open>
  \<open>func (s *Plasma) LSSDataSize() int64\<close>: the sum of \<open>FlushDataSz\<close> over the
  statistics of the contexts of \<open>wCtxList\<close> (the name \<open>LSSDataSize\<close> is a field of
  \<open>Stats\<close> already).
\<close>

definition LSSDataSizeSum :: "'f Stats list \<Rightarrow> int64" where
  "LSSDataSizeSum ws = foldl (\<lambda>sz w. sz + FlushDataSz w) 0 ws"

text \<open>
  The fields of \<open>Config\<close> that \<open>plasma.go\<close> reads in the functions modelled here: the
  three thresholds of the structure modifications, the segment limit given to
  \<open>Marshal\<close>, and the two flags \<open>shouldPersist\<close> and \<open>useMemMgmt\<close>. The thresholds are
  compared only, so they are the mathematical values of the Go \<open>int\<close>s.
\<close>

record Config =
  MaxDeltaChainLen :: int
  MaxPageItems :: int
  MinPageItems :: int
  MaxPageLSSSegments :: int64
  shouldPersist :: bool
  useMemMgmt :: bool

text \<open>
  What \<open>GetStats\<close> reads from outside \<open>Stats\<close> and \<open>Config\<close>: the page count it takes from the
  index (\<open>int64(s.Skiplist.GetStats().NodeCount + 1)\<close>), \<open>lss.BytesWritten()\<close>, the three results of \<open>GetLSSInfo\<close>, and the
  float operations it uses (conversion from \<open>int64\<close>, division, the test \<open>> 0\<close>).
\<close>

record 'f statsEnv =
  indexPages :: int64
  lssBytesWritten :: int64
  lssInfo :: "int64 \<times> int64 \<times> int64"
  fzero :: 'f
  ofInt64 :: "int64 \<Rightarrow> 'f"
  fdiv :: "'f \<Rightarrow> 'f \<Rightarrow> 'f"
  fpos :: "'f \<Rightarrow> bool"

text \<open>
  \<open>func (s *Plasma) GetStats() Stats\<close>. \<open>ws\<close> are the statistics of the contexts of
  \<open>wCtxList\<close>; \<open>cleaner\<close> and \<open>g\<close> are those of \<open>lssCleanerWriter\<close> and \<open>gCtx\<close>, of
  which the function reads fields that \<open>Merge\<close> leaves alone. The result is the returned
  \<open>Stats\<close> and the contexts' statistics after the call.
\<close>

definition GetStats ::
  "Config \<Rightarrow> 'f statsEnv \<Rightarrow> 'f Stats list \<Rightarrow> 'f Stats \<Rightarrow> 'f Stats \<Rightarrow> 'f Stats \<times> 'f Stats list" where
  "GetStats cfg env ws cleaner g =
    (let sts0 = (zeroStats (fzero env))\<lparr> NumPages := indexPages env \<rparr>;
         (sts1, ws1) = mergeCtxs sts0 ws;
         sts2 = sts1\<lparr> MemSz := AllocSz sts1 - FreeSz sts1 \<rparr>;
         sts3 = sts2\<lparr> MemSzIndex := AllocSzIndex sts2 - FreeSzIndex sts2 \<rparr>
     in if shouldPersist cfg then
          (let sts4 = sts3\<lparr> BytesWritten := lssBytesWritten env \<rparr>;
               sts5 = (case lssInfo env of (frag, ds, used) \<Rightarrow>
                         sts4\<lparr> LSSFrag := frag, LSSDataSize := ds, LSSUsedSpace := used \<rparr>);
               sts6 = sts5\<lparr> NumLSSCleanerReads := NumLSSReads cleaner,
                            LSSCleanerReadBytes := LSSReadBytes cleaner,
                            CacheHitRatio := CacheHitRatio g,
                            WriteAmp := WriteAmp g \<rparr>;
               bsOut = ofInt64 env (BytesWritten sts6);
               bsIn = ofInt64 env (BytesIncoming sts6);
               sts7 = (if fpos env bsIn then sts6\<lparr> WriteAmpAvg := fdiv env bsOut bsIn \<rparr>
                       else sts6);
               cachedRecs = NumRecordAllocs sts7 - NumRecordFrees sts7;
               lssRecs = NumRecordSwapOut sts7 - NumRecordSwapIn sts7;
               totalRecs = cachedRecs + lssRecs
           in (if 0 <s totalRecs
               then sts7\<lparr> ResidentRatio :=
                      fdiv env (ofInt64 env cachedRecs) (ofInt64 env totalRecs) \<rparr>
               else sts7, ws1))
        else (sts3, ws1))"

section \<open>plasma.go: structure modifications, page removal and recovery\<close>

text \<open>
  \<open>trySMOs\<close>, \<open>tryPageRemoval\<close>, \<open>indexPage\<close>, \<open>unindexPage\<close>, \<open>tryPageSwapin\<close> and the
  callback of \<open>doRecovery\<close>, as one thread runs them. A page id is a skiplist node; here it
  is a number. A Go \<open>int\<close> that is stored or added is an \<open>int64\<close> word.
\<close>

type_synonym PageId = nat
type_synonym LSSOffset = "64 word"

definition goLen :: "'a list \<Rightarrow> int64" where
  "goLen xs = of_nat (length xs)"

text \<open>
  The block types that \<open>doRecovery\<close> switches on; \<open>lssOther\<close> is any other tag, for which
  the \<open>switch\<close> has no case.
\<close>

datatype lssBlockType =
    lssPageData | lssPageReloc | lssPageUpdate | lssPageRemove
  | lssRecoveryPoints | lssMaxSn | lssDiscard | lssOther

text \<open>
  Modelled from the spec: a block starts with its type, ``tagged 1 byte''
  (\<open>lssBlockTypeSize\<close> is declared outside \<open>plasma.go\<close>).
\<close>

definition lssBlockTypeSize :: nat where
  "lssBlockTypeSize = 1"


text \<open>
  How a call ends: it returns, it panics with a message, or it is still in a
  \<open>goto retry\<close> loop when the retries it was allowed are used up.
\<close>

datatype 'a outcome = Ret 'a | Panic string | Spin

text \<open>
  The calls that leave \<open>plasma.go\<close> and change a page or the store, with their
  arguments. The state keeps them in the order they are made.
\<close>

datatype 'pg call =
    CallCompact 'pg
  | CallSplit 'pg PageId
  | CallClose 'pg
  | CallMerge 'pg 'pg
  | CallMarshal 'pg int64
  | CallAddFlushRecord 'pg LSSOffset int64 int64
  | CallUnmarshal 'pg "byte list"
  | CallAppend 'pg 'pg
  | CallSetPrevHeadPtr 'pg 'pg
  | CallReset 'pg
  | CallFree 'pg
  | CallSwapIn 'pg
  | CallUpdateMapping PageId 'pg
  | CallCreateMapping PageId 'pg
  | CallAllocPageId
  | CallFreePageId PageId
  | CallReadPage PageId
  | CallInsert4 PageId
  | CallDeleteNode2 PageId
  | CallSetLink PageId 'pg
  | CallReserveSpaceMulti "int64 list"
  | CallWriteLSSBlock slice lssBlockType "byte list"
  | CallDiscardLSSBlock slice
  | CallFinalizeWrite nat
  | CallTryEvictPages
  | CallTrySMRObjects int64

text \<open>
  What \<open>plasma.go\<close> calls and does not define, as parameters: the methods of a page
  (\<open>'pg\<close> is the value of a page object), the helpers of the block format, the mapping
  table and the page allocator, the skiplist index, and the log. \<open>'w\<close> is the state of
  all of these; \<open>'i\<close> is an item. A field named \<open>X_fn\<close> is the function behind the call
  \<open>X\<close> defined below, which also records the call; the other fields only read.

  \<^item> \<open>chainLen\<close>, \<open>numItems\<close>: the length of the delta chain and the item count of a page.
  \<^item> \<open>headEvicted\<close>: \<open>pgi.head != nil && pgi.head.state.IsEvicted()\<close>; \<open>walkerEnd\<close> and
    \<open>walkerOpSwapout\<close>: \<open>pw.End()\<close> and \<open>pw.Op() == opSwapoutDelta\<close> of a new walker
    on the page.
  \<^item> \<open>Link\<close>: the page \<open>newPage(ctx, nil, n.Link)\<close> of a node; \<open>nodeItemIsMin\<close>:
    \<open>n.Item() == skiplist.MinItem\<close>; \<open>nodeSize\<close>:
    \<open>int64(s.itemSize(n.Item()) + uintptr(n.Size()))\<close>.
  \<^item> \<open>Lookup\<close> gives \<open>(parent, curr, found)\<close>; \<open>getPageId\<close> gives \<open>None\<close> for \<open>nil\<close>;
    \<open>ReadPage_fn\<close> gives the error or the page.
  \<^item> \<open>ReserveSpaceMulti_fn\<close> gives the offsets, the reserved slices and the resource.

  These functions act on \<open>'w\<close> and on pages. The counters of \<open>Stats\<close> that the functions
  below write are taken to be written by them alone.
\<close>

record ('pg, 'i, 'w) env =
  cfg :: Config
  HeadNode :: PageId
  FullMarshal :: int64
  chainLen :: "'pg \<Rightarrow> int"
  numItems :: "'pg \<Rightarrow> int"
  NeedRemoval :: "'pg \<Rightarrow> bool"
  MinItem :: "'pg \<Rightarrow> 'i"
  Next :: "'pg \<Rightarrow> PageId"
  pgLow :: "'pg \<Rightarrow> 'i"
  GetFlushDataSize :: "'pg \<Rightarrow> int64"
  GetFlushInfo :: "'pg \<Rightarrow> LSSOffset \<times> int64 \<times> int64"
  headEvicted :: "'pg \<Rightarrow> bool"
  walkerEnd :: "'pg \<Rightarrow> bool"
  walkerOpSwapout :: "'pg \<Rightarrow> bool"
  Compact_fn :: "'pg \<Rightarrow> int64 \<times> 'pg"
  Split_fn :: "'pg \<Rightarrow> PageId \<Rightarrow> 'pg option \<times> 'pg"
  Close_fn :: "'pg \<Rightarrow> 'pg"
  Merge_fn :: "'pg \<Rightarrow> 'pg \<Rightarrow> 'pg"
  Marshal_fn :: "'pg \<Rightarrow> int64 \<Rightarrow> (byte list \<times> int64 \<times> int64 \<times> int64) \<times> 'pg"
  AddFlushRecord_fn :: "'pg \<Rightarrow> LSSOffset \<Rightarrow> int64 \<Rightarrow> int64 \<Rightarrow> 'pg"
  Unmarshal_fn :: "'pg \<Rightarrow> byte list \<Rightarrow> 'pg"
  Append_fn :: "'pg \<Rightarrow> 'pg \<Rightarrow> 'pg"
  setPrevHeadPtr_fn :: "'pg \<Rightarrow> 'pg \<Rightarrow> 'pg"
  Reset_fn :: "'pg \<Rightarrow> 'pg"
  free_fn :: "'pg \<Rightarrow> 'w \<Rightarrow> 'w"
  SwapIn_fn :: "'pg \<Rightarrow> 'w \<Rightarrow> (bool \<times> 'pg) \<times> 'w"
  getLSSBlockType :: "byte list \<Rightarrow> lssBlockType"
  getRmPageLow :: "byte list \<Rightarrow> 'i"
  decodeMaxSn :: "byte list \<Rightarrow> 64 word"
  pgFlushLSSType :: "'pg \<Rightarrow> int64 \<Rightarrow> lssBlockType"
  marshalPageSMO :: "'pg \<Rightarrow> byte list"
  UpdateMapping_fn :: "PageId \<Rightarrow> 'pg \<Rightarrow> 'w \<Rightarrow> bool \<times> 'w"
  CreateMapping_fn :: "PageId \<Rightarrow> 'pg \<Rightarrow> 'w \<Rightarrow> 'w"
  AllocPageId_fn :: "'w \<Rightarrow> PageId \<times> 'w"
  FreePageId_fn :: "PageId \<Rightarrow> 'w \<Rightarrow> 'w"
  ReadPage_fn :: "PageId \<Rightarrow> 'w \<Rightarrow> (string + 'pg) \<times> 'w"
  getPageId :: "'i \<Rightarrow> 'w \<Rightarrow> PageId option"
  tryEvictPages_fn :: "'w \<Rightarrow> 'w"
  trySMRObjects_fn :: "int64 \<Rightarrow> 'w \<Rightarrow> 'w"
  Lookup :: "'i \<Rightarrow> 'w \<Rightarrow> PageId \<times> PageId \<times> bool"
  Insert4_fn :: "PageId \<Rightarrow> 'w \<Rightarrow> (PageId \<times> bool) \<times> 'w"
  DeleteNode2_fn :: "PageId \<Rightarrow> 'w \<Rightarrow> 'w"
  Link :: "PageId \<Rightarrow> 'w \<Rightarrow> 'pg"
  setLink_fn :: "PageId \<Rightarrow> 'pg \<Rightarrow> 'w \<Rightarrow> 'w"
  nodeItemIsMin :: "PageId \<Rightarrow> 'w \<Rightarrow> bool"
  nodeSize :: "PageId \<Rightarrow> 'w \<Rightarrow> int64"
  ReserveSpaceMulti_fn :: "int64 list \<Rightarrow> 'w \<Rightarrow> (LSSOffset list \<times> slice list \<times> nat) \<times> 'w"
  writeLSSBlock_fn :: "slice \<Rightarrow> lssBlockType \<Rightarrow> byte list \<Rightarrow> 'w \<Rightarrow> 'w"
  discardLSSBlock_fn :: "slice \<Rightarrow> 'w \<Rightarrow> 'w"
  FinalizeWrite_fn :: "nat \<Rightarrow> 'w \<Rightarrow> 'w"

text \<open>
  The state one context works on: its statistics \<open>ctx.sts\<close>, its \<open>reclaimList\<close> (the
  page id and the size of each entry), the bytes that \<open>rpVersion\<close> and \<open>recoveryPoints\<close>
  were last unmarshalled from, \<open>currSn\<close>, the calls made so far, and the state of what
  is outside \<open>plasma.go\<close>.
\<close>

record ('f, 'pg, 'w) Plasma =
  sts :: "'f Stats"
  reclaimList :: "(PageId \<times> 32 word) list"
  rpBytes :: "byte list option"
  currSn :: "64 word"
  calls :: "'pg call list"
  ext :: 'w

definition pageCall ::
  "'pg call \<Rightarrow> 'a \<Rightarrow> ('f, 'pg, 'w) Plasma \<Rightarrow> 'a \<times> ('f, 'pg, 'w) Plasma" where
  "pageCall c r s = (r, s\<lparr> calls := calls s @ [c] \<rparr>)"

definition extCall ::
  "'pg call \<Rightarrow> ('w \<Rightarrow> 'a \<times> 'w) \<Rightarrow> ('f, 'pg, 'w) Plasma \<Rightarrow> 'a \<times> ('f, 'pg, 'w) Plasma" where
  "extCall c f s = (case f (ext s) of (r, w) \<Rightarrow> (r, s\<lparr> calls := calls s @ [c], ext := w \<rparr>))"

definition extDo ::
  "'pg call \<Rightarrow> ('w \<Rightarrow> 'w) \<Rightarrow> ('f, 'pg, 'w) Plasma \<Rightarrow> ('f, 'pg, 'w) Plasma" where
  "extDo c f s = s\<lparr> calls := calls s @ [c], ext := f (ext s) \<rparr>"

subsection \<open>The calls\<close>

text \<open>
  Modelled from the spec: \<open>NeedCompaction\<close>, \<open>NeedSplit\<close> and \<open>NeedMerge\<close> are ``predicates
  on chain length, item count'': chain length \<open>\<ge>\<close> the threshold, items \<open>\<ge>\<close> the
  threshold, items \<open>\<le>\<close> the threshold.
\<close>

definition NeedCompaction :: "('pg, 'i, 'w) env \<Rightarrow> 'pg \<Rightarrow> int \<Rightarrow> bool" where
  "NeedCompaction env pg threshold = (threshold \<le> chainLen env pg)"

definition NeedSplit :: "('pg, 'i, 'w) env \<Rightarrow> 'pg \<Rightarrow> int \<Rightarrow> bool" where
  "NeedSplit env pg threshold = (threshold \<le> numItems env pg)"

definition NeedMerge :: "('pg, 'i, 'w) env \<Rightarrow> 'pg \<Rightarrow> int \<Rightarrow> bool" where
  "NeedMerge env pg threshold = (numItems env pg \<le> threshold)"

definition Compact ::
  "('pg, 'i, 'w) env \<Rightarrow> 'pg \<Rightarrow> ('f, 'pg, 'w) Plasma \<Rightarrow> (int64 \<times> 'pg) \<times> ('f, 'pg, 'w) Plasma" where
  "Compact env pg = pageCall (CallCompact pg) (Compact_fn env pg)"

definition Split ::
  "('pg, 'i, 'w) env \<Rightarrow> 'pg \<Rightarrow> PageId \<Rightarrow> ('f, 'pg, 'w) Plasma \<Rightarrow>
     ('pg option \<times> 'pg) \<times> ('f, 'pg, 'w) Plasma" where
  "Split env pg splitPid = pageCall (CallSplit pg splitPid) (Split_fn env pg splitPid)"

definition Close ::
  "('pg, 'i, 'w) env \<Rightarrow> 'pg \<Rightarrow> ('f, 'pg, 'w) Plasma \<Rightarrow> 'pg \<times> ('f, 'pg, 'w) Plasma" where
  "Close env pg = pageCall (CallClose pg) (Close_fn env pg)"

definition pgMerge ::
  "('pg, 'i, 'w) env \<Rightarrow> 'pg \<Rightarrow> 'pg \<Rightarrow> ('f, 'pg, 'w) Plasma \<Rightarrow> 'pg \<times> ('f, 'pg, 'w) Plasma" where
  "pgMerge env pPg pg = pageCall (CallMerge pPg pg) (Merge_fn env pPg pg)"

definition Marshal ::
  "('pg, 'i, 'w) env \<Rightarrow> 'pg \<Rightarrow> int64 \<Rightarrow> ('f, 'pg, 'w) Plasma \<Rightarrow>
     ((byte list \<times> int64 \<times> int64 \<times> int64) \<times> 'pg) \<times> ('f, 'pg, 'w) Plasma" where
  "Marshal env pg maxSegments = pageCall (CallMarshal pg maxSegments) (Marshal_fn env pg maxSegments)"

definition AddFlushRecord ::
  "('pg, 'i, 'w) env \<Rightarrow> 'pg \<Rightarrow> LSSOffset \<Rightarrow> int64 \<Rightarrow> int64 \<Rightarrow> ('f, 'pg, 'w) Plasma \<Rightarrow>
     'pg \<times> ('f, 'pg, 'w) Plasma" where
  "AddFlushRecord env pg off dataSz numSegments =
     pageCall (CallAddFlushRecord pg off dataSz numSegments)
       (AddFlushRecord_fn env pg off dataSz numSegments)"

definition Unmarshal ::
  "('pg, 'i, 'w) env \<Rightarrow> 'pg \<Rightarrow> byte list \<Rightarrow> ('f, 'pg, 'w) Plasma \<Rightarrow>
     'pg \<times> ('f, 'pg, 'w) Plasma" where
  "Unmarshal env pg bs = pageCall (CallUnmarshal pg bs) (Unmarshal_fn env pg bs)"

definition pgAppend ::
  "('pg, 'i, 'w) env \<Rightarrow> 'pg \<Rightarrow> 'pg \<Rightarrow> ('f, 'pg, 'w) Plasma \<Rightarrow> 'pg \<times> ('f, 'pg, 'w) Plasma" where
  "pgAppend env pg currPg = pageCall (CallAppend pg currPg) (Append_fn env pg currPg)"

definition setPrevHeadPtr ::
  "('pg, 'i, 'w) env \<Rightarrow> 'pg \<Rightarrow> 'pg \<Rightarrow> ('f, 'pg, 'w) Plasma \<Rightarrow> 'pg \<times> ('f, 'pg, 'w) Plasma" where
  "setPrevHeadPtr env pg currPg =
     pageCall (CallSetPrevHeadPtr pg currPg) (setPrevHeadPtr_fn env pg currPg)"

definition pgReset ::
  "('pg, 'i, 'w) env \<Rightarrow> 'pg \<Rightarrow> ('f, 'pg, 'w) Plasma \<Rightarrow> 'pg \<times> ('f, 'pg, 'w) Plasma" where
  "pgReset env pg = pageCall (CallReset pg) (Reset_fn env pg)"

definition free ::
  "('pg, 'i, 'w) env \<Rightarrow> 'pg \<Rightarrow> ('f, 'pg, 'w) Plasma \<Rightarrow> ('f, 'pg, 'w) Plasma" where
  "free env pg = extDo (CallFree pg) (free_fn env pg)"

definition SwapIn ::
  "('pg, 'i, 'w) env \<Rightarrow> 'pg \<Rightarrow> ('f, 'pg, 'w) Plasma \<Rightarrow> (bool \<times> 'pg) \<times> ('f, 'pg, 'w) Plasma" where
  "SwapIn env pg = extCall (CallSwapIn pg) (SwapIn_fn env pg)"

definition UpdateMapping ::
  "('pg, 'i, 'w) env \<Rightarrow> PageId \<Rightarrow> 'pg \<Rightarrow> ('f, 'pg, 'w) Plasma \<Rightarrow> bool \<times> ('f, 'pg, 'w) Plasma" where
  "UpdateMapping env pid pg = extCall (CallUpdateMapping pid pg) (UpdateMapping_fn env pid pg)"

definition CreateMapping ::
  "('pg, 'i, 'w) env \<Rightarrow> PageId \<Rightarrow> 'pg \<Rightarrow> ('f, 'pg, 'w) Plasma \<Rightarrow> ('f, 'pg, 'w) Plasma" where
  "CreateMapping env pid pg = extDo (CallCreateMapping pid pg) (CreateMapping_fn env pid pg)"

definition AllocPageId ::
  "('pg, 'i, 'w) env \<Rightarrow> ('f, 'pg, 'w) Plasma \<Rightarrow> PageId \<times> ('f, 'pg, 'w) Plasma" where
  "AllocPageId env = extCall CallAllocPageId (AllocPageId_fn env)"

definition FreePageId ::
  "('pg, 'i, 'w) env \<Rightarrow> PageId \<Rightarrow> ('f, 'pg, 'w) Plasma \<Rightarrow> ('f, 'pg, 'w) Plasma" where
  "FreePageId env pid = extDo (CallFreePageId pid) (FreePageId_fn env pid)"

definition ReadPage ::
  "('pg, 'i, 'w) env \<Rightarrow> PageId \<Rightarrow> ('f, 'pg, 'w) Plasma \<Rightarrow>
     (string + 'pg) \<times> ('f, 'pg, 'w) Plasma" where
  "ReadPage env pid = extCall (CallReadPage pid) (ReadPage_fn env pid)"

definition tryEvictPages ::
  "('pg, 'i, 'w) env \<Rightarrow> ('f, 'pg, 'w) Plasma \<Rightarrow> ('f, 'pg, 'w) Plasma" where
  "tryEvictPages env = extDo CallTryEvictPages (tryEvictPages_fn env)"

definition trySMRObjects ::
  "('pg, 'i, 'w) env \<Rightarrow> int64 \<Rightarrow> ('f, 'pg, 'w) Plasma \<Rightarrow> ('f, 'pg, 'w) Plasma" where
  "trySMRObjects env numObjects = extDo (CallTrySMRObjects numObjects) (trySMRObjects_fn env numObjects)"

definition Insert4 ::
  "('pg, 'i, 'w) env \<Rightarrow> PageId \<Rightarrow> ('f, 'pg, 'w) Plasma \<Rightarrow>
     (PageId \<times> bool) \<times> ('f, 'pg, 'w) Plasma" where
  "Insert4 env n = extCall (CallInsert4 n) (Insert4_fn env n)"

definition DeleteNode2 ::
  "('pg, 'i, 'w) env \<Rightarrow> PageId \<Rightarrow> ('f, 'pg, 'w) Plasma \<Rightarrow> ('f, 'pg, 'w) Plasma" where
  "DeleteNode2 env n = extDo (CallDeleteNode2 n) (DeleteNode2_fn env n)"

definition setLink ::
  "('pg, 'i, 'w) env \<Rightarrow> PageId \<Rightarrow> 'pg \<Rightarrow> ('f, 'pg, 'w) Plasma \<Rightarrow> ('f, 'pg, 'w) Plasma" where
  "setLink env n lnk = extDo (CallSetLink n lnk) (setLink_fn env n lnk)"

definition lssReserveSpaceMulti ::
  "('pg, 'i, 'w) env \<Rightarrow> int64 list \<Rightarrow> ('f, 'pg, 'w) Plasma \<Rightarrow>
     (LSSOffset list \<times> slice list \<times> nat) \<times> ('f, 'pg, 'w) Plasma" where
  "lssReserveSpaceMulti env sizes = extCall (CallReserveSpaceMulti sizes) (ReserveSpaceMulti_fn env sizes)"

definition writeLSSBlock ::
  "('pg, 'i, 'w) env \<Rightarrow> slice \<Rightarrow> lssBlockType \<Rightarrow> byte list \<Rightarrow> ('f, 'pg, 'w) Plasma \<Rightarrow>
     ('f, 'pg, 'w) Plasma" where
  "writeLSSBlock env wbuf typ bs = extDo (CallWriteLSSBlock wbuf typ bs) (writeLSSBlock_fn env wbuf typ bs)"

definition discardLSSBlock ::
  "('pg, 'i, 'w) env \<Rightarrow> slice \<Rightarrow> ('f, 'pg, 'w) Plasma \<Rightarrow> ('f, 'pg, 'w) Plasma" where
  "discardLSSBlock env wbuf = extDo (CallDiscardLSSBlock wbuf) (discardLSSBlock_fn env wbuf)"

definition lssFinalizeWrite ::
  "('pg, 'i, 'w) env \<Rightarrow> nat \<Rightarrow> ('f, 'pg, 'w) Plasma \<Rightarrow> ('f, 'pg, 'w) Plasma" where
  "lssFinalizeWrite env res = extDo (CallFinalizeWrite res) (FinalizeWrite_fn env res)"

text \<open>
  \<open>xs[i]\<close> of a Go slice: \<open>None\<close> where Go panics with an index out of range.
\<close>

definition index :: "'a list \<Rightarrow> nat \<Rightarrow> 'a option" where
  "index xs i = (if i < length xs then Some (xs ! i) else None)"

subsection \<open>indexPage and unindexPage\<close>

text \<open>
  One pass through the code of \<open>indexPage\<close> after the label \<open>retry\<close>; \<open>retry\<close> is what
  \<open>goto retry\<close> continues with.
\<close>

definition indexPageTry ::
  "('pg, 'i, 'w) env \<Rightarrow> (('f, 'pg, 'w) Plasma \<Rightarrow> unit outcome \<times> ('f, 'pg, 'w) Plasma) \<Rightarrow>
     PageId \<Rightarrow> ('f, 'pg, 'w) Plasma \<Rightarrow> unit outcome \<times> ('f, 'pg, 'w) Plasma" where
  "indexPageTry env retry n s =
     (case Insert4 env n s of
        ((existNode, ok), s1) \<Rightarrow>
          if \<not> ok then
            if NeedRemoval env (Link env existNode (ext s1)) then retry s1
            else (Panic ''duplicate index node'', s1)
          else
            (Ret (), s1\<lparr> sts := (sts s1)\<lparr> AllocSzIndex :=
                                    AllocSzIndex (sts s1) + nodeSize env n (ext s1) \<rparr> \<rparr>))"

text \<open>
  The loop, with \<open>k\<close> the number of times \<open>goto retry\<close> may be taken: one more ends
  the call with \<open>Spin\<close>.
\<close>

primrec indexPageRetry ::
  "('pg, 'i, 'w) env \<Rightarrow> nat \<Rightarrow> PageId \<Rightarrow> ('f, 'pg, 'w) Plasma \<Rightarrow>
     unit outcome \<times> ('f, 'pg, 'w) Plasma" where
  "indexPageRetry env 0 n = indexPageTry env (\<lambda>s. (Spin, s)) n"
| "indexPageRetry env (Suc k) n = indexPageTry env (indexPageRetry env k n) n"

definition indexPage ::
  "('pg, 'i, 'w) env \<Rightarrow> nat \<Rightarrow> PageId \<Rightarrow> ('f, 'pg, 'w) Plasma \<Rightarrow>
     unit outcome \<times> ('f, 'pg, 'w) Plasma" where
  "indexPage env k pid s =
     (if nodeItemIsMin env pid (ext s) then
        (let lnk = Link env pid (ext s);
             s1 = FreePageId env pid s;
             s2 = setLink env (HeadNode env) lnk s1
         in (Ret (), s2))
      else indexPageRetry env k pid s)"

definition unindexPage ::
  "('pg, 'i, 'w) env \<Rightarrow> PageId \<Rightarrow> ('f, 'pg, 'w) Plasma \<Rightarrow> ('f, 'pg, 'w) Plasma" where
  "unindexPage env pid s =
     (let s1 = DeleteNode2 env pid s;
          sz = nodeSize env pid (ext s1);
          s2 = s1\<lparr> sts := (sts s1)\<lparr> FreeSzIndex := FreeSzIndex (sts s1) + sz \<rparr> \<rparr>
      in if useMemMgmt (cfg env)
         then s2\<lparr> reclaimList := reclaimList s2 @ [(pid, ucast sz)] \<rparr>
         else s2)"

subsection \<open>tryPageSwapin\<close>

text \<open>
  The loop \<open>for !pw.End() { if pw.Op() == opSwapoutDelta { pw.Next(); break } }\<close> moves
  the walker only when it stands on the swapout delta: on any other delta it runs for
  ever. The result is \<open>ok\<close> and the page.
\<close>

definition tryPageSwapin ::
  "('pg, 'i, 'w) env \<Rightarrow> 'pg \<Rightarrow> ('f, 'pg, 'w) Plasma \<Rightarrow>
     (bool \<times> 'pg) outcome \<times> ('f, 'pg, 'w) Plasma" where
  "tryPageSwapin env pg s =
     (if headEvicted env pg then
        if \<not> walkerEnd env pg \<and> \<not> walkerOpSwapout env pg then (Spin, s)
        else (case SwapIn env pg s of ((ok, pg1), s1) \<Rightarrow> (Ret (ok, pg1), s1))
      else (Ret (False, pg), s))"

subsection \<open>tryPageRemoval\<close>

text \<open>
  One pass through the code of \<open>tryPageRemoval\<close> after the label \<open>retry\<close>.
\<close>

definition tryPageRemovalTry ::
  "('pg, 'i, 'w) env \<Rightarrow> (('f, 'pg, 'w) Plasma \<Rightarrow> unit outcome \<times> ('f, 'pg, 'w) Plasma) \<Rightarrow>
     PageId \<Rightarrow> 'pg \<Rightarrow> 'i \<Rightarrow> ('f, 'pg, 'w) Plasma \<Rightarrow> unit outcome \<times> ('f, 'pg, 'w) Plasma" where
  "tryPageRemovalTry env retry pid pg itm s =
     (case Lookup env itm (ext s) of
        (parent, cur, found) \<Rightarrow>
          if \<not> found \<or> cur \<noteq> pid then (Ret (), s)
          else
            (case ReadPage env parent s of
               (Inl err, s1) \<Rightarrow> (Panic err, s1)
             | (Inr pPg, s1) \<Rightarrow>
                 if NeedRemoval env pPg then retry s1
                 else if Next env pPg \<noteq> pid then retry s1
                 else
                   (case tryPageSwapin env pg s1 of
                      (Panic m, s2) \<Rightarrow> (Panic m, s2)
                    | (Spin, s2) \<Rightarrow> (Spin, s2)
                    | (Ret (ok, pg1), s2) \<Rightarrow>
                        (case pgMerge env pPg pg1 s2 of
                           (pPg1, s3) \<Rightarrow>
                             if shouldPersist (cfg env) then
                               (let metaBuf = marshalPageSMO env pg1 in
                                case Marshal env pPg1 (FullMarshal env) s3 of
                                  (((pgBuf, fdSz, staleFdSz, numSegments), pPg2), s4) \<Rightarrow>
                                    (case lssReserveSpaceMulti env
                                            [of_nat lssBlockTypeSize + goLen metaBuf,
                                             of_nat lssBlockTypeSize + goLen pgBuf] s4 of
                                       ((offsets, wbufs, res), s5) \<Rightarrow>
                                         (case (index wbufs 0, index wbufs 1, index offsets 1) of
                                            (Some w0, Some w1, Some o1) \<Rightarrow>
                                              (let s6 = writeLSSBlock env w0 lssPageRemove metaBuf s5;
                                                   s7 = writeLSSBlock env w1 lssPageData pgBuf s6
                                               in case AddFlushRecord env pPg2 o1 fdSz numSegments s7 of
                                                    (pPg3, s8) \<Rightarrow>
                                                      (case UpdateMapping env parent pPg3 s8 of
                                                         (updated, s9) \<Rightarrow>
                                                           if updated then
                                                             (let s10 = unindexPage env pid s9;
                                                                  s11 = s10\<lparr> sts := (sts s10)\<lparr> FlushDataSz :=
                                                                          FlushDataSz (sts s10) + (fdSz - staleFdSz) \<rparr> \<rparr>
                                                              in (Ret (), lssFinalizeWrite env res s11))
                                                           else
                                                             retry (lssFinalizeWrite env res
                                                                      (discardLSSBlock env w1
                                                                         (discardLSSBlock env w0 s9)))))
                                          | _ \<Rightarrow> (Panic ''index out of range'', s5))))
                             else
                               (case UpdateMapping env parent pPg1 s3 of
                                  (updated, s4) \<Rightarrow>
                                    if updated then (Ret (), unindexPage env pid s4)
                                    else retry s4)))))"

primrec tryPageRemovalRetry ::
  "('pg, 'i, 'w) env \<Rightarrow> nat \<Rightarrow> PageId \<Rightarrow> 'pg \<Rightarrow> 'i \<Rightarrow> ('f, 'pg, 'w) Plasma \<Rightarrow>
     unit outcome \<times> ('f, 'pg, 'w) Plasma" where
  "tryPageRemovalRetry env 0 pid pg itm = tryPageRemovalTry env (\<lambda>s. (Spin, s)) pid pg itm"
| "tryPageRemovalRetry env (Suc k) pid pg itm =
     tryPageRemovalTry env (tryPageRemovalRetry env k pid pg itm) pid pg itm"

definition tryPageRemoval ::
  "('pg, 'i, 'w) env \<Rightarrow> nat \<Rightarrow> PageId \<Rightarrow> 'pg \<Rightarrow> ('f, 'pg, 'w) Plasma \<Rightarrow>
     unit outcome \<times> ('f, 'pg, 'w) Plasma" where
  "tryPageRemoval env k pid pg s = tryPageRemovalRetry env k pid pg (MinItem env pg) s"

subsection \<open>trySMOs\<close>

definition isStartPage :: "('pg, 'i, 'w) env \<Rightarrow> PageId \<Rightarrow> bool" where
  "isStartPage env pid = (pid = HeadNode env)"

text \<open>
  \<open>func (s *Plasma) trySMOs(pid PageId, pg Page, ctx *wCtx, doUpdate bool) bool\<close>, with
  \<open>k\<close> the retries allowed to the loops of \<open>indexPage\<close> and \<open>tryPageRemoval\<close>.
\<close>

definition trySMOs ::
  "('pg, 'i, 'w) env \<Rightarrow> nat \<Rightarrow> PageId \<Rightarrow> 'pg \<Rightarrow> bool \<Rightarrow> ('f, 'pg, 'w) Plasma \<Rightarrow>
     bool outcome \<times> ('f, 'pg, 'w) Plasma" where
  "trySMOs env k pid pg doUpdate s =
     (if NeedCompaction env pg (MaxDeltaChainLen (cfg env)) then
        (case Compact env pg s of
           ((staleFdSz, pg1), s1) \<Rightarrow>
             (case UpdateMapping env pid pg1 s1 of
                (updated, s2) \<Rightarrow>
                  if updated then
                    (Ret True, s2\<lparr> sts := (sts s2)\<lparr> Compacts := Compacts (sts s2) + 1,
                                     FlushDataSz := FlushDataSz (sts s2) - staleFdSz \<rparr> \<rparr>)
                  else
                    (Ret False, s2\<lparr> sts := (sts s2)\<lparr> CompactConflicts :=
                                                CompactConflicts (sts s2) + 1 \<rparr> \<rparr>)))
      else if NeedSplit env pg (MaxPageItems (cfg env)) then
        (case AllocPageId env s of
           (splitPid, s1) \<Rightarrow>
             (case Split env pg splitPid s1 of
                ((None, pg1), s2) \<Rightarrow>
                  (let s3 = FreePageId env splitPid s2 in
                   case Compact env pg1 s3 of
                     ((staleFdSz, pg2), s4) \<Rightarrow>
                       (case UpdateMapping env pid pg2 s4 of
                          (updated, s5) \<Rightarrow>
                            if updated then
                              (Ret True, s5\<lparr> sts := (sts s5)\<lparr> FlushDataSz :=
                                                     FlushDataSz (sts s5) - staleFdSz \<rparr> \<rparr>)
                            else (Ret False, s5)))
              | ((Some newPg, pg1), s2) \<Rightarrow>
                  if shouldPersist (cfg env) then
                    (case Marshal env pg1 (MaxPageLSSSegments (cfg env)) s2 of
                       (((pgBuf, fdSz, staleFdSz, numSegments), pg2), s3) \<Rightarrow>
                         (case Marshal env newPg 1 s3 of
                            (((splitPgBuf, splitFdSz, u, numSegmentsSplit), newPg1), s4) \<Rightarrow>
                              (case lssReserveSpaceMulti env
                                      [of_nat lssBlockTypeSize + goLen pgBuf,
                                       of_nat lssBlockTypeSize + goLen splitPgBuf] s4 of
                                 ((offsets, wbufs, res), s5) \<Rightarrow>
                                   (case (index wbufs 0, index offsets 0,
                                          index wbufs 1, index offsets 1) of
                                      (Some w0, Some o0, Some w1, Some o1) \<Rightarrow>
                                        (let s6 = writeLSSBlock env w0
                                                    (pgFlushLSSType env pg2 numSegments) pgBuf s5
                                         in case AddFlushRecord env pg2 o0 fdSz numSegments s6 of
                                              (pg3, s7) \<Rightarrow>
                                                (let s8 = writeLSSBlock env w1 lssPageData splitPgBuf s7
                                                 in case AddFlushRecord env newPg1 o1 splitFdSz
                                                           numSegmentsSplit s8 of
                                                      (newPg2, s9) \<Rightarrow>
                                                        (let s10 = CreateMapping env splitPid newPg2 s9
                                                         in case UpdateMapping env pid pg3 s10 of
                                                              (updated, s11) \<Rightarrow>
                                                                if updated then
                                                                  (case indexPage env k splitPid s11 of
                                                                     (Ret u1, s12) \<Rightarrow>
                                                                       (let s13 = s12\<lparr> sts := (sts s12)\<lparr>
                                                                              Splits := Splits (sts s12) + 1 \<rparr> \<rparr>;
                                                                            s14 = s13\<lparr> sts := (sts s13)\<lparr>
                                                                              FlushDataSz := FlushDataSz (sts s13)
                                                                                + (fdSz + splitFdSz - staleFdSz) \<rparr> \<rparr>
                                                                        in (Ret True, lssFinalizeWrite env res s14))
                                                                   | (Panic m, s12) \<Rightarrow> (Panic m, s12)
                                                                   | (Spin, s12) \<Rightarrow> (Spin, s12))
                                                                else
                                                                  (let s12 = s11\<lparr> sts := (sts s11)\<lparr>
                                                                         SplitConflicts :=
                                                                           SplitConflicts (sts s11) + 1 \<rparr> \<rparr>;
                                                                       s13 = FreePageId env splitPid s12
                                                                   in (Ret False,
                                                                       lssFinalizeWrite env res
                                                                         (discardLSSBlock env w1
                                                                            (discardLSSBlock env w0 s13)))))))
                                    | _ \<Rightarrow> (Panic ''index out of range'', s5)))))
                  else
                    (let s3 = CreateMapping env splitPid newPg s2
                     in case UpdateMapping env pid pg1 s3 of
                          (updated, s4) \<Rightarrow>
                            if updated then
                              (case indexPage env k splitPid s4 of
                                 (Ret u1, s5) \<Rightarrow>
                                   (Ret True, s5\<lparr> sts := (sts s5)\<lparr> Splits := Splits (sts s5) + 1 \<rparr> \<rparr>)
                               | (Panic m, s5) \<Rightarrow> (Panic m, s5)
                               | (Spin, s5) \<Rightarrow> (Spin, s5))
                            else
                              (let s5 = s4\<lparr> sts := (sts s4)\<lparr> SplitConflicts :=
                                                    SplitConflicts (sts s4) + 1 \<rparr> \<rparr>
                               in (Ret False, FreePageId env splitPid s5)))))
      else if \<not> isStartPage env pid \<and> NeedMerge env pg (MinPageItems (cfg env)) then
        (case Close env pg s of
           (pg1, s1) \<Rightarrow>
             (case UpdateMapping env pid pg1 s1 of
                (updated, s2) \<Rightarrow>
                  if updated then
                    (case tryPageRemoval env k pid pg1 s2 of
                       (Ret u, s3) \<Rightarrow>
                         (Ret True, s3\<lparr> sts := (sts s3)\<lparr> Merges := Merges (sts s3) + 1 \<rparr> \<rparr>)
                     | (Panic m, s3) \<Rightarrow> (Panic m, s3)
                     | (Spin, s3) \<Rightarrow> (Spin, s3))
                  else
                    (Ret False, s2\<lparr> sts := (sts s2)\<lparr> MergeConflicts :=
                                                MergeConflicts (sts s2) + 1 \<rparr> \<rparr>)))
      else if doUpdate then
        (case UpdateMapping env pid pg s of (updated, s1) \<Rightarrow> (Ret updated, s1))
      else (Ret False, s))"

subsection \<open>doRecovery\<close>



subsection \<open>The calls a run adds\<close>





subsection \<open>A store in memory\<close>

text \<open>
  An instance of the parameters, to run the functions on: a page is its low key, the
  length of its chain, its item count, the segment count of its last flush record, its
  right sibling and whether it is closed; the store is the mapping table as a list, the
  next free page id and the page ids in the index. Nothing is persisted. \<open>Split\<close> never
  finds a split profitable.
\<close>

record memPage =
  mlow :: nat
  mchain :: int
  mitems :: int
  msegs :: int64
  mnext :: PageId
  mclosed :: bool

record memStore =
  table :: "(PageId \<times> memPage) list"
  nextPid :: PageId
  indexed :: "PageId list"

definition emptyPage :: memPage where
  "emptyPage = \<lparr> mlow = 0, mchain = 0, mitems = 0, msegs = 0, mnext = 0, mclosed = False \<rparr>"

definition setEntry :: "PageId \<Rightarrow> memPage \<Rightarrow> memStore \<Rightarrow> memStore" where
  "setEntry pid pg w = w\<lparr> table := (pid, pg) # filter (\<lambda>e. fst e \<noteq> pid) (table w) \<rparr>"

definition firstByte :: "byte list \<Rightarrow> nat" where
  "firstByte bs = (case bs of [] \<Rightarrow> 0 | x # xs \<Rightarrow> unat x)"

definition memBlockType :: "byte list \<Rightarrow> lssBlockType" where
  "memBlockType bs =
     (if bs = [] then lssOther
      else if firstByte bs = 0 then lssPageData
      else if firstByte bs = 1 then lssPageReloc
      else if firstByte bs = 2 then lssPageUpdate
      else if firstByte bs = 3 then lssPageRemove
      else if firstByte bs = 4 then lssRecoveryPoints
      else if firstByte bs = 5 then lssMaxSn
      else if firstByte bs = 6 then lssDiscard
      else lssOther)"

definition memLookup :: "nat \<Rightarrow> memStore \<Rightarrow> PageId \<times> PageId \<times> bool" where
  "memLookup itm w =
     (case find (\<lambda>e. mlow (snd e) = itm \<and> fst e \<in> set (indexed w)) (table w) of
        None \<Rightarrow> (0, 0, False)
      | Some e \<Rightarrow> (0, fst e, True))"

definition memEnv :: "(memPage, nat, memStore) env" where
  "memEnv = \<lparr>
     cfg = \<lparr> MaxDeltaChainLen = 4, MaxPageItems = 8, MinPageItems = 1,
             MaxPageLSSSegments = 2, shouldPersist = False, useMemMgmt = False \<rparr>,
     HeadNode = 0,
     FullMarshal = 0,
     chainLen = mchain,
     numItems = mitems,
     NeedRemoval = mclosed,
     MinItem = mlow,
     Next = mnext,
     pgLow = mlow,
     GetFlushDataSize = (\<lambda>pg. 0),
     GetFlushInfo = (\<lambda>pg. (0, msegs pg, 0)),
     headEvicted = (\<lambda>pg. False),
     walkerEnd = (\<lambda>pg. True),
     walkerOpSwapout = (\<lambda>pg. False),
     Compact_fn = (\<lambda>pg. (0, pg\<lparr> mchain := 0 \<rparr>)),
     Split_fn = (\<lambda>pg splitPid. (None, pg)),
     Close_fn = (\<lambda>pg. pg\<lparr> mclosed := True \<rparr>),
     Merge_fn = (\<lambda>pPg pg. pPg\<lparr> mitems := mitems pPg + mitems pg, mnext := mnext pg \<rparr>),
     Marshal_fn = (\<lambda>pg maxSegments. (([], 0, 0, 1), pg)),
     AddFlushRecord_fn = (\<lambda>pg off dataSz numSegments. pg\<lparr> msegs := numSegments \<rparr>),
     Unmarshal_fn = (\<lambda>pg bs. pg\<lparr> mlow := firstByte bs, mchain := 1, mitems := 1 \<rparr>),
     Append_fn = (\<lambda>pg currPg. pg\<lparr> mchain := mchain pg + mchain currPg,
                                    mitems := mitems pg + mitems currPg \<rparr>),
     setPrevHeadPtr_fn = (\<lambda>pg currPg. pg),
     Reset_fn = (\<lambda>pg. emptyPage),
     free_fn = (\<lambda>pg w. w),
     SwapIn_fn = (\<lambda>pg w. ((True, pg), w)),
     getLSSBlockType = memBlockType,
     getRmPageLow = firstByte,
     decodeMaxSn = (\<lambda>bs. 0),
     pgFlushLSSType = (\<lambda>pg numSegments. lssPageData),
     marshalPageSMO = (\<lambda>pg. []),
     UpdateMapping_fn = (\<lambda>pid pg w. (True, setEntry pid pg w)),
     CreateMapping_fn = setEntry,
     AllocPageId_fn = (\<lambda>w. (nextPid w, w\<lparr> nextPid := Suc (nextPid w) \<rparr>)),
     FreePageId_fn = (\<lambda>pid w. w\<lparr> table := filter (\<lambda>e. fst e \<noteq> pid) (table w) \<rparr>),
     ReadPage_fn = (\<lambda>pid w. (case map_of (table w) pid of
                                 None \<Rightarrow> Inl ''page not found''
                               | Some pg \<Rightarrow> Inr pg, w)),
     getPageId = (\<lambda>itm w. map_option fst (find (\<lambda>e. mlow (snd e) = itm) (table w))),
     tryEvictPages_fn = (\<lambda>w. w),
     trySMRObjects_fn = (\<lambda>numObjects w. w),
     Lookup = memLookup,
     Insert4_fn = (\<lambda>n w. if n \<in> set (indexed w) then ((n, False), w)
                           else ((n, True), w\<lparr> indexed := n # indexed w \<rparr>)),
     DeleteNode2_fn = (\<lambda>n w. w\<lparr> indexed := removeAll n (indexed w) \<rparr>),
     Link = (\<lambda>n w. case map_of (table w) n of None \<Rightarrow> emptyPage | Some pg \<Rightarrow> pg),
     setLink_fn = setEntry,
     nodeItemIsMin = (\<lambda>n w. False),
     nodeSize = (\<lambda>n w. 8),
     ReserveSpaceMulti_fn = (\<lambda>sizes w. ((map (\<lambda>sz. 0) sizes,
                                              map (\<lambda>sz. \<lparr> low = 0, high = 0 \<rparr>) sizes, 0), w)),
     writeLSSBlock_fn = (\<lambda>wbuf typ bs w. w),
     discardLSSBlock_fn = (\<lambda>wbuf w. w),
     FinalizeWrite_fn = (\<lambda>res w. w) \<rparr>"

text \<open>
  A state of that store: no page yet, page ids from \<open>1\<close> (\<open>0\<close> is the start page).
\<close>

definition memInit :: "(unit, memPage, memStore) Plasma" where
  "memInit = \<lparr> sts = zeroStats (), reclaimList = [], rpBytes = None, currSn = 0, calls = [],
               ext = \<lparr> table = [], nextPid = 1, indexed = [] \<rparr> \<rparr>"




section \<open>Statistics aggregation\<close>

lemma Merge_fst_ReclaimSzIndex: "ReclaimSzIndex (fst (Merge s w)) = ReclaimSzIndex s"
  by (simp add: Merge_def)

lemma Merge_snd:
  "snd (Merge s w) = w\<lparr> ReclaimSzIndex := ReclaimSzIndex w + ReclaimSzIndex w \<rparr>"
  by (simp add: Merge_def)

lemma mergeCtxs_ReclaimSzIndex:
  "ReclaimSzIndex (fst (mergeCtxs acc ws)) = ReclaimSzIndex acc"
proof (induction ws arbitrary: acc)
  case Nil
  show ?case by simp
next
  case (Cons w ws)
  have "ReclaimSzIndex (fst (mergeCtxs (fst (Merge acc w)) ws)) = ReclaimSzIndex acc"
    using Cons [of "fst (Merge acc w)"] by (simp only: Merge_fst_ReclaimSzIndex)
  then show ?case by (simp add: case_prod_beta)
qed

lemma mergeCtxs_contexts:
  "snd (mergeCtxs acc ws) =
     map (\<lambda>w. w\<lparr> ReclaimSzIndex := ReclaimSzIndex w + ReclaimSzIndex w \<rparr>) ws"
proof (induction ws arbitrary: acc)
  case Nil
  show ?case by simp
next
  case (Cons w ws)
  show ?case using Cons [of "fst (Merge acc w)"] by (simp add: case_prod_beta Merge_snd)
qed

lemma Merge_fst:
  "fst (Merge s other) =
     s\<lparr> Compacts := Compacts s + Compacts other,
        Splits := Splits s + Splits other,
        Merges := Merges s + Merges other,
        Inserts := Inserts s + Inserts other,
        Deletes := Deletes s + Deletes other,
        CompactConflicts := CompactConflicts s + CompactConflicts other,
        SplitConflicts := SplitConflicts s + SplitConflicts other,
        MergeConflicts := MergeConflicts s + MergeConflicts other,
        InsertConflicts := InsertConflicts s + InsertConflicts other,
        DeleteConflicts := DeleteConflicts s + DeleteConflicts other,
        SwapInConflicts := SwapInConflicts s + SwapInConflicts other,
        AllocSz := AllocSz s + AllocSz other,
        FreeSz := FreeSz s + FreeSz other,
        ReclaimSz := ReclaimSz s + ReclaimSz other,
        AllocSzIndex := AllocSzIndex s + AllocSzIndex other,
        FreeSzIndex := FreeSzIndex s + FreeSzIndex other,
        NumRecordAllocs := NumRecordAllocs s + NumRecordAllocs other,
        NumRecordFrees := NumRecordFrees s + NumRecordFrees other,
        NumRecordSwapOut := NumRecordSwapOut s + NumRecordSwapOut other,
        NumRecordSwapIn := NumRecordSwapIn s + NumRecordSwapIn other,
        BytesIncoming := BytesIncoming s + BytesIncoming other,
        NumLSSReads := NumLSSReads s + NumLSSReads other,
        LSSReadBytes := LSSReadBytes s + LSSReadBytes other,
        CacheHits := CacheHits s + CacheHits other,
        CacheMisses := CacheMisses s + CacheMisses other \<rparr>"
  by (simp only: Merge_def fst_conv)

lemma Merge_fst_added:
  "Compacts (fst (Merge s other)) = Compacts s + Compacts other \<and>
   Splits (fst (Merge s other)) = Splits s + Splits other \<and>
   Merges (fst (Merge s other)) = Merges s + Merges other \<and>
   Inserts (fst (Merge s other)) = Inserts s + Inserts other \<and>
   Deletes (fst (Merge s other)) = Deletes s + Deletes other \<and>
   CompactConflicts (fst (Merge s other)) = CompactConflicts s + CompactConflicts other \<and>
   SplitConflicts (fst (Merge s other)) = SplitConflicts s + SplitConflicts other \<and>
   MergeConflicts (fst (Merge s other)) = MergeConflicts s + MergeConflicts other \<and>
   InsertConflicts (fst (Merge s other)) = InsertConflicts s + InsertConflicts other \<and>
   DeleteConflicts (fst (Merge s other)) = DeleteConflicts s + DeleteConflicts other \<and>
   SwapInConflicts (fst (Merge s other)) = SwapInConflicts s + SwapInConflicts other \<and>
   AllocSz (fst (Merge s other)) = AllocSz s + AllocSz other \<and>
   FreeSz (fst (Merge s other)) = FreeSz s + FreeSz other \<and>
   ReclaimSz (fst (Merge s other)) = ReclaimSz s + ReclaimSz other \<and>
   AllocSzIndex (fst (Merge s other)) = AllocSzIndex s + AllocSzIndex other \<and>
   FreeSzIndex (fst (Merge s other)) = FreeSzIndex s + FreeSzIndex other \<and>
   NumRecordAllocs (fst (Merge s other)) = NumRecordAllocs s + NumRecordAllocs other \<and>
   NumRecordFrees (fst (Merge s other)) = NumRecordFrees s + NumRecordFrees other \<and>
   NumRecordSwapOut (fst (Merge s other)) = NumRecordSwapOut s + NumRecordSwapOut other \<and>
   NumRecordSwapIn (fst (Merge s other)) = NumRecordSwapIn s + NumRecordSwapIn other \<and>
   BytesIncoming (fst (Merge s other)) = BytesIncoming s + BytesIncoming other \<and>
   NumLSSReads (fst (Merge s other)) = NumLSSReads s + NumLSSReads other \<and>
   LSSReadBytes (fst (Merge s other)) = LSSReadBytes s + LSSReadBytes other \<and>
   CacheHits (fst (Merge s other)) = CacheHits s + CacheHits other \<and>
   CacheMisses (fst (Merge s other)) = CacheMisses s + CacheMisses other"
  unfolding Merge_fst by simp

lemma Merge_fst_kept:
  "BytesWritten (fst (Merge s other)) = BytesWritten s \<and>
   FlushDataSz (fst (Merge s other)) = FlushDataSz s \<and>
   MemSz (fst (Merge s other)) = MemSz s \<and>
   MemSzIndex (fst (Merge s other)) = MemSzIndex s \<and>
   NumPages (fst (Merge s other)) = NumPages s \<and>
   LSSFrag (fst (Merge s other)) = LSSFrag s \<and>
   LSSDataSize (fst (Merge s other)) = LSSDataSize s \<and>
   LSSUsedSpace (fst (Merge s other)) = LSSUsedSpace s \<and>
   NumLSSCleanerReads (fst (Merge s other)) = NumLSSCleanerReads s \<and>
   LSSCleanerReadBytes (fst (Merge s other)) = LSSCleanerReadBytes s \<and>
   WriteAmp (fst (Merge s other)) = WriteAmp s \<and>
   WriteAmpAvg (fst (Merge s other)) = WriteAmpAvg s \<and>
   CacheHitRatio (fst (Merge s other)) = CacheHitRatio s \<and>
   ResidentRatio (fst (Merge s other)) = ResidentRatio s"
  unfolding Merge_fst by simp

lemma GetStats_ReclaimSzIndex: "ReclaimSzIndex (fst (GetStats conf env ws cleaner g)) = 0"
proof -
  have "ReclaimSzIndex
          (fst (mergeCtxs ((zeroStats (fzero env))\<lparr> NumPages := indexPages env \<rparr>) ws)) = 0"
    by (simp only: mergeCtxs_ReclaimSzIndex) (simp add: zeroStats_def)
  then show ?thesis
    by (simp add: GetStats_def Let_def case_prod_beta)
qed

lemma GetStats_snd:
  "snd (GetStats conf env ws cleaner g) =
     snd (mergeCtxs ((zeroStats (fzero env))\<lparr> NumPages := indexPages env \<rparr>) ws)"
  by (simp add: GetStats_def Let_def case_prod_beta)

lemma GetStats_contexts:
  "snd (GetStats conf env ws cleaner g) =
     map (\<lambda>w. w\<lparr> ReclaimSzIndex := 2 * ReclaimSzIndex w \<rparr>) ws"
  by (simp only: GetStats_snd mergeCtxs_contexts mult_2)

lemma Merge_fst_FlushDataSz: "FlushDataSz (fst (Merge s w)) = FlushDataSz s"
  by (simp add: Merge_def)

lemma mergeCtxs_FlushDataSz:
  "FlushDataSz (fst (mergeCtxs acc ws)) = FlushDataSz acc"
proof (induction ws arbitrary: acc)
  case Nil
  show ?case by simp
next
  case (Cons w ws)
  have "FlushDataSz (fst (mergeCtxs (fst (Merge acc w)) ws)) = FlushDataSz acc"
    using Cons [of "fst (Merge acc w)"] by (simp only: Merge_fst_FlushDataSz)
  then show ?case by (simp add: case_prod_beta)
qed

lemma GetStats_FlushDataSz: "FlushDataSz (fst (GetStats conf env ws cleaner g)) = 0"
proof -
  have "FlushDataSz
          (fst (mergeCtxs ((zeroStats (fzero env))\<lparr> NumPages := indexPages env \<rparr>) ws)) = 0"
    by (simp only: mergeCtxs_FlushDataSz) (simp add: zeroStats_def)
  then show ?thesis
    by (simp add: GetStats_def Let_def case_prod_beta)
qed

text \<open>
  Claim C10, with its second exception. \<open>Merge\<close> adds twenty-five counters of the
  argument into the receiver (the wrapping \<open>int64\<close> sum). \<open>ReclaimSzIndex\<close> is an
  exception: the receiver's is left as it was and the argument's own is doubled; every
  other field of the argument is as before. \<open>FlushDataSz\<close>, which the contexts keep
  each for itself like the counters that are added, is the other exception: \<open>Merge\<close>
  does not touch it, nor the receiver's remaining fields (\<open>BytesWritten\<close>, the sizes
  and ratios that \<open>GetStats\<close> derives afterwards). So the \<open>Stats\<close> that \<open>GetStats\<close>
  returns has \<open>ReclaimSzIndex = 0\<close> and \<open>FlushDataSz = 0\<close> whatever the write
  contexts hold, and the call leaves every context with its \<open>ReclaimSzIndex\<close> doubled
  and nothing else changed.
\<close>

theorem Merge_adds_counters_but_ReclaimSzIndex:
  "(Compacts (fst (Merge s other)) = Compacts s + Compacts other \<and>
   Splits (fst (Merge s other)) = Splits s + Splits other \<and>
   Merges (fst (Merge s other)) = Merges s + Merges other \<and>
   Inserts (fst (Merge s other)) = Inserts s + Inserts other \<and>
   Deletes (fst (Merge s other)) = Deletes s + Deletes other \<and>
   CompactConflicts (fst (Merge s other)) = CompactConflicts s + CompactConflicts other \<and>
   SplitConflicts (fst (Merge s other)) = SplitConflicts s + SplitConflicts other \<and>
   MergeConflicts (fst (Merge s other)) = MergeConflicts s + MergeConflicts other \<and>
   InsertConflicts (fst (Merge s other)) = InsertConflicts s + InsertConflicts other \<and>
   DeleteConflicts (fst (Merge s other)) = DeleteConflicts s + DeleteConflicts other \<and>
   SwapInConflicts (fst (Merge s other)) = SwapInConflicts s + SwapInConflicts other \<and>
   AllocSz (fst (Merge s other)) = AllocSz s + AllocSz other \<and>
   FreeSz (fst (Merge s other)) = FreeSz s + FreeSz other \<and>
   ReclaimSz (fst (Merge s other)) = ReclaimSz s + ReclaimSz other \<and>
   AllocSzIndex (fst (Merge s other)) = AllocSzIndex s + AllocSzIndex other \<and>
   FreeSzIndex (fst (Merge s other)) = FreeSzIndex s + FreeSzIndex other \<and>
   NumRecordAllocs (fst (Merge s other)) = NumRecordAllocs s + NumRecordAllocs other \<and>
   NumRecordFrees (fst (Merge s other)) = NumRecordFrees s + NumRecordFrees other \<and>
   NumRecordSwapOut (fst (Merge s other)) = NumRecordSwapOut s + NumRecordSwapOut other \<and>
   NumRecordSwapIn (fst (Merge s other)) = NumRecordSwapIn s + NumRecordSwapIn other \<and>
   BytesIncoming (fst (Merge s other)) = BytesIncoming s + BytesIncoming other \<and>
   NumLSSReads (fst (Merge s other)) = NumLSSReads s + NumLSSReads other \<and>
   LSSReadBytes (fst (Merge s other)) = LSSReadBytes s + LSSReadBytes other \<and>
   CacheHits (fst (Merge s other)) = CacheHits s + CacheHits other \<and>
   CacheMisses (fst (Merge s other)) = CacheMisses s + CacheMisses other) \<and>
   ReclaimSzIndex (fst (Merge s other)) = ReclaimSzIndex s \<and>
   ReclaimSzIndex (snd (Merge s other)) = 2 * ReclaimSzIndex other \<and>
   snd (Merge s other) = other\<lparr> ReclaimSzIndex := 2 * ReclaimSzIndex other \<rparr> \<and>
   (BytesWritten (fst (Merge s other)) = BytesWritten s \<and>
   FlushDataSz (fst (Merge s other)) = FlushDataSz s \<and>
   MemSz (fst (Merge s other)) = MemSz s \<and>
   MemSzIndex (fst (Merge s other)) = MemSzIndex s \<and>
   NumPages (fst (Merge s other)) = NumPages s \<and>
   LSSFrag (fst (Merge s other)) = LSSFrag s \<and>
   LSSDataSize (fst (Merge s other)) = LSSDataSize s \<and>
   LSSUsedSpace (fst (Merge s other)) = LSSUsedSpace s \<and>
   NumLSSCleanerReads (fst (Merge s other)) = NumLSSCleanerReads s \<and>
   LSSCleanerReadBytes (fst (Merge s other)) = LSSCleanerReadBytes s \<and>
   WriteAmp (fst (Merge s other)) = WriteAmp s \<and>
   WriteAmpAvg (fst (Merge s other)) = WriteAmpAvg s \<and>
   CacheHitRatio (fst (Merge s other)) = CacheHitRatio s \<and>
   ResidentRatio (fst (Merge s other)) = ResidentRatio s) \<and>
   ReclaimSzIndex (fst (GetStats conf env ws cleaner g)) = 0 \<and>
   snd (GetStats conf env ws cleaner g) =
     map (\<lambda>w. w\<lparr> ReclaimSzIndex := 2 * ReclaimSzIndex w \<rparr>) ws \<and>
   FlushDataSz (fst (GetStats conf env ws cleaner g)) = 0"
proof -
  have c: "snd (Merge s other) = other\<lparr> ReclaimSzIndex := 2 * ReclaimSzIndex other \<rparr>"
    by (simp only: Merge_snd mult_2)
  have d: "ReclaimSzIndex (snd (Merge s other)) = 2 * ReclaimSzIndex other"
    unfolding c by simp
  show ?thesis
    by (rule conjI [OF Merge_fst_added conjI [OF Merge_fst_ReclaimSzIndex conjI [OF d
        conjI [OF c conjI [OF Merge_fst_kept
        conjI [OF GetStats_ReclaimSzIndex conjI [OF GetStats_contexts
        GetStats_FlushDataSz]]]]]]])
qed

text \<open>
  The claim names one exception. \<open>FlushDataSz\<close> is a second: a context whose
  \<open>FlushDataSz\<close> is \<open>5\<close>, merged into statistics that are all zero, leaves the
  receiver's \<open>FlushDataSz\<close> at \<open>0\<close>, while \<open>LSSDataSize()\<close> over that context is \<open>5\<close>.
\<close>

theorem Merge_skips_FlushDataSz_counterexample:
  "FlushDataSz (fst (Merge (zeroStats ()) ((zeroStats ())\<lparr> FlushDataSz := 5 \<rparr>))) = 0 \<and>
   FlushDataSz ((zeroStats ())\<lparr> FlushDataSz := 5 \<rparr>) = 5 \<and>
   LSSDataSizeSum [(zeroStats ())\<lparr> FlushDataSz := 5 \<rparr>] = 5"
  by (simp add: Merge_fst_FlushDataSz LSSDataSizeSum_def) (simp add: zeroStats_def)

section \<open>The state word\<close>

text \<open>
  What \<open>decodeState\<close> reads back from \<open>encodeState\<close>: the full bit as given, the
  reset bit clear, the low 16 bits of the writer count, and the low 32 bits of the offset
  when the writer count leaves them alone.
\<close>

lemma bit_small: "0 \<le> (k::int) \<Longrightarrow> k < 2 ^ m \<Longrightarrow> bit k j \<Longrightarrow> j < m"
  by (metis bit_take_bit_iff take_bit_int_eq_self)

lemma mask16: "(65535 :: 64 word) = mask 16"
  by (simp add: mask_eq_exp_minus_1)

lemma and2_iff: "(w :: 64 word) AND 2 = 2 \<longleftrightarrow> bit w (Suc 0)"
proof
  assume "w AND 2 = 2"
  then have "bit (w AND 2) (Suc 0) = bit (2 :: 64 word) (Suc 0)" by simp
  then show "bit w (Suc 0)" by (simp add: bit_simps)
next
  assume a: "bit w (Suc 0)"
  show "w AND 2 = 2"
  proof (rule bit_word_eqI)
    fix n
    show "bit (w AND 2) n = bit (2 :: 64 word) n"
      using a by (cases "n = Suc 0") (auto simp add: bit_simps bit_numeral_Bit0_iff)
  qed
qed

lemma dec_full: "fst (decodeState (encodeState f nw off)) = f"
  by (simp add: decodeState_def encodeState_def and_one_eq mod2_eq_if even_or_iff)

lemma dec_reset: "fst (snd (decodeState (encodeState f nw off))) = False"
  by (simp add: decodeState_def and2_iff) (simp add: encodeState_def bit_simps)

lemma dec_nw: "fst (snd (snd (decodeState (encodeState f nw off)))) = take_bit 16 nw"
  apply (simp add: decodeState_def mask16 flip: take_bit_eq_mask)
  apply (rule bit_eqI)
  apply (auto simp add: encodeState_def bit_simps)
  done

lemma dec_off:
  "0 \<le> nw \<Longrightarrow> nw < 2 ^ 30 \<Longrightarrow>
   snd (snd (snd (decodeState (encodeState f nw off)))) = take_bit 32 off"
  apply (simp add: decodeState_def)
  apply (rule bit_eqI)
  apply (auto simp add: encodeState_def bit_simps dest: bit_small [where m = 30])
  done

lemma dec_off_ge:
  "take_bit 32 off \<le> snd (snd (snd (decodeState (encodeState f nw off))))"
proof -
  let ?Z = "drop_bit 32 (push_bit 32 (word_of_int off :: 64 word))"
  let ?Y = "drop_bit 32 ((if f then 1 else 0) OR push_bit 2 (word_of_int nw :: 64 word))"
  have z: "uint ?Z = take_bit 32 off"
    by (rule bit_eqI) (auto simp add: bit_simps)
  have "?Z \<le> ?Z OR ?Y" by (rule le_word_or2)
  then have "uint ?Z \<le> uint (?Y OR ?Z)" by (simp add: word_le_def or.commute)
  then show ?thesis
    by (simp add: z decodeState_def encodeState_def or.assoc)
qed

lemma decodeState_bounds:
  "decodeState st = (f, r, nw, off) \<Longrightarrow> 0 \<le> nw \<and> nw < 2 ^ 16 \<and> 0 \<le> off \<and> off < 2 ^ 32"
proof -
  assume a: "decodeState st = (f, r, nw, off)"
  have n: "nw = uint (take_bit 16 (drop_bit 2 st))"
    using a by (simp add: decodeState_def mask16 take_bit_eq_mask)
  have "uint (drop_bit 32 st) = drop_bit 32 (uint st)"
    by (rule bit_eqI) (simp add: bit_simps)
  then have o: "off = uint st div 2 ^ 32"
    using a by (simp add: decodeState_def drop_bit_eq_div)
  have "uint st < 2 ^ 64" using uint_bounded [of st] by simp
  then have ob: "uint st div 2 ^ 32 < 2 ^ 32" by simp
  have "uint (take_bit 16 (drop_bit 2 st)) = take_bit 16 (uint (drop_bit 2 st))"
    by (rule bit_eqI) (auto simp add: bit_simps)
  then have nb: "uint (take_bit 16 (drop_bit 2 st)) < 2 ^ 16"
    using take_bit_int_less_exp [of 16 "uint (drop_bit 2 st)"] by simp
  have "0 \<le> uint st div 2 ^ 32"
    by (rule pos_imp_zdiv_nonneg_iff [THEN iffD2]) simp_all
  then show ?thesis using n o nb ob by simp
qed

lemma decodeState_encodeState:
  "0 \<le> nw \<Longrightarrow> nw < 2 ^ 16 \<Longrightarrow> 0 \<le> off \<Longrightarrow> off < 2 ^ 32 \<Longrightarrow>
   decodeState (encodeState f nw off) = (f, False, nw, off)"
proof -
  assume a: "0 \<le> nw" "nw < 2 ^ 16" "0 \<le> off" "off < 2 ^ 32"
  have n: "take_bit 16 nw = nw" using a by (intro take_bit_int_eq_self) simp_all
  have "nw < 2 ^ 30" using a by simp
  then have o: "snd (snd (snd (decodeState (encodeState f nw off)))) = off"
    using a take_bit_int_eq_self [of off 32] by (simp add: dec_off)
  show ?thesis
    using dec_full [of f nw off] dec_reset [of f nw off] dec_nw [of f nw off] o n
    by (cases "decodeState (encodeState f nw off)") simp
qed

section \<open>Alloc\<close>

lemma wrap64_id: "- (2 ^ 63) \<le> x \<Longrightarrow> x < 2 ^ 63 \<Longrightarrow> wrap64 x = x"
  by (simp add: wrap64_def)

lemma wrap64_over: "2 ^ 63 \<le> x \<Longrightarrow> x < 2 ^ 64 + 2 ^ 63 \<Longrightarrow> wrap64 x = x - 2 ^ 64"
proof -
  assume a: "2 ^ 63 \<le> x" "x < 2 ^ 64 + 2 ^ 63"
  have "(x + 2 ^ 63) mod 2 ^ 64 = (x + 2 ^ 63 - 2 ^ 64) mod 2 ^ 64"
    by (metis minus_mod_self2)
  also have "\<dots> = x + 2 ^ 63 - 2 ^ 64"
    using a by (intro mod_pos_pos_trivial) simp_all
  finally show ?thesis by (simp add: wrap64_def)
qed

lemma PutUint32_length [simp]: "length (PutUint32 bs i v) = length bs"
  by (simp add: PutUint32_def)

lemma PutUint32_take: "take i (PutUint32 bs i v) = take i bs"
  by (simp add: PutUint32_def)

lemma PutUint32_bytes: "i + 4 \<le> length bs \<Longrightarrow> take 4 (drop i (PutUint32 bs i v)) = be32 v"
  by (simp add: PutUint32_def be32_def list_eq_iff_nth_eq nth_list_update less_Suc_eq numeral_eq_Suc)

lemma slice_payload:
  assumes "0 \<le> lo" "int cap < 2 ^ 63" "isInt64 sz" "sliceOK lo (wrap64 (lo + sz)) cap" "lo \<le> int cap"
  shows "0 \<le> sz \<and> lo + sz \<le> int cap \<and> wrap64 (lo + sz) = lo + sz"
proof (cases "lo + sz < 2 ^ 63")
  case True
  have "- (2 ^ 63) \<le> lo + sz" using assms by (simp add: isInt64_def)
  then have w: "wrap64 (lo + sz) = lo + sz" using True by (rule wrap64_id)
  then show ?thesis using assms by (simp add: sliceOK_def)
next
  case False
  have "lo + sz < 2 ^ 64 + 2 ^ 63" using assms by (simp add: isInt64_def)
  then have "wrap64 (lo + sz) = lo + sz - 2 ^ 64" using False by (intro wrap64_over) simp_all
  then have "wrap64 (lo + sz) < 0" using assms by (simp add: isInt64_def)
  then show ?thesis using assms by (simp add: sliceOK_def)
qed

lemma word_of_int_wrap64: "(word_of_int (wrap64 x) :: 64 word) = word_of_int x"
proof -
  have "((x + 2 ^ 63) mod 2 ^ 64 - 2 ^ 63) mod 2 ^ 64 = (x + 2 ^ 63 - 2 ^ 63) mod (2 ^ 64 :: int)"
    by (rule mod_diff_left_eq)
  then have "take_bit 64 (wrap64 x) = take_bit 64 x"
    by (simp only: take_bit_eq_mod wrap64_def add_diff_cancel)
  then show ?thesis
    by (simp only: word_of_int_eq_iff len_bit0 len_num1 mult_1_right numeral_Bit0 [symmetric])
      (simp)
qed

lemma take4_drop_take:
  "a + 4 \<le> c \<Longrightarrow> take 4 (drop a (take c xs)) = take 4 (drop a xs)"
  by (simp add: drop_take min_def)

lemma allocChunks_ok:
  "allocChunks base sizes p bs = Inr (offs, bufs, bs') \<Longrightarrow> 0 \<le> p \<Longrightarrow>
   list_all isInt64 sizes \<Longrightarrow> int (length bs) < 2 ^ 63 \<Longrightarrow>
   list_all (\<lambda>sz. 0 \<le> sz) sizes \<and>
   (sizes \<noteq> [] \<longrightarrow> p + sum_list (map (\<lambda>sz. sz + 4) sizes) \<le> int (length bs)) \<and>
   offs = map (\<lambda>q. word_of_int (base + q)) (chunkPositions p sizes) \<and>
   map low bufs = map (\<lambda>q. nat (q + 4)) (chunkPositions p sizes) \<and>
   map (\<lambda>s. int (high s) - int (low s)) bufs = sizes \<and>
   list_all (\<lambda>s. low s \<le> high s \<and> high s \<le> length bs) bufs \<and>
   length bs' = length bs \<and>
   take (nat p) bs' = take (nat p) bs \<and>
   map (\<lambda>s. take 4 (drop (low s - 4) bs')) bufs = map (\<lambda>sz. be32 (word_of_int sz)) sizes"
proof (induction sizes arbitrary: p bs offs bufs bs')
  case Nil
  then show ?case by simp
next
  case (Cons sz szs)
  let ?cap = "length bs"
  let ?bs1 = "PutUint32 bs (nat p) (word_of_int sz)"
  let ?p' = "p + sz + 4"
  have int64: "isInt64 sz" "list_all isInt64 szs" using Cons.prems(3) by simp_all
  have ok1: "sliceOK p (wrap64 (p + 4)) ?cap"
    using Cons.prems(1) by (simp split: if_splits)
  then have pcap: "p \<le> int ?cap" by (simp add: sliceOK_def)
  have h: "p + 4 \<le> int ?cap" "wrap64 (p + 4) = p + 4"
    using slice_payload [OF Cons.prems(2) Cons.prems(4) _ ok1 pcap] by (simp_all add: isInt64_def)
  have ok2: "sliceOK (p + 4) (wrap64 (p + 4 + sz)) ?cap"
    using Cons.prems(1) h by (simp add: Let_def split: if_splits)
  have py: "0 \<le> sz" "p + 4 + sz \<le> int ?cap" "wrap64 (p + 4 + sz) = p + 4 + sz"
    using slice_payload [OF _ Cons.prems(4) int64(1) ok2] Cons.prems(2) h by simp_all
  have w1: "wrap64 (sz + 4) = sz + 4"
    using py Cons.prems(2) Cons.prems(4) by (intro wrap64_id) simp_all
  have w2: "wrap64 (p + (sz + 4)) = ?p'"
    using py Cons.prems(2) Cons.prems(4) wrap64_id [of "p + (sz + 4)"] by simp
  obtain offs1 bufs1 where
    rec: "allocChunks base szs ?p' ?bs1 = Inr (offs1, bufs1, bs')"
    and offs: "offs = word_of_int (wrap64 (base + p)) # offs1"
    and bufs: "bufs = \<lparr> low = nat (p + 4), high = nat (p + 4 + sz) \<rparr> # bufs1"
    using Cons.prems(1) ok1 ok2 h py w1 w2
    by (auto simp add: Let_def split: sum.splits)
  have p'0: "0 \<le> ?p'" using py Cons.prems(2) by simp
  have len1: "int (length ?bs1) < 2 ^ 63" using Cons.prems(4) by simp
  note IH = Cons.IH [OF rec p'0 int64(2) len1]
  have len: "length bs' = ?cap" using IH by simp
  have tk': "take (nat ?p') bs' = take (nat ?p') ?bs1" using IH by simp
  have "take (nat p) bs' = take (nat p) (take (nat ?p') bs')"
    using py Cons.prems(2) by (simp add: min_def)
  also have "\<dots> = take (nat p) (take (nat ?p') ?bs1)" by (simp only: tk')
  also have "\<dots> = take (nat p) ?bs1" using py Cons.prems(2) by (simp add: min_def)
  also have "\<dots> = take (nat p) bs" by (rule PutUint32_take)
  finally have tk: "take (nat p) bs' = take (nat p) bs" .
  have "take 4 (drop (nat p) bs') = take 4 (drop (nat p) (take (nat ?p') bs'))"
    using py Cons.prems(2) by (intro take4_drop_take [symmetric]) simp
  also have "\<dots> = take 4 (drop (nat p) (take (nat ?p') ?bs1))" by (simp only: tk')
  also have "\<dots> = take 4 (drop (nat p) ?bs1)"
    using py Cons.prems(2) by (intro take4_drop_take) simp
  also have "\<dots> = be32 (word_of_int sz)"
    using h Cons.prems(2) by (intro PutUint32_bytes) simp
  finally have hd: "take 4 (drop (nat p) bs') = be32 (word_of_int sz)" .
  have hd': "take 4 (drop (nat (p + 4) - 4) bs') = be32 (word_of_int sz)"
    using hd Cons.prems(2) by (simp add: nat_add_distrib)
  have sum: "?p' + sum_list (map (\<lambda>sz. sz + 4) szs) \<le> int ?cap"
  proof (cases szs)
    case Nil
    then show ?thesis using py by simp
  next
    case (Cons a list)
    then show ?thesis using IH by simp
  qed
  have sl: "nat (p + 4) \<le> nat (p + 4 + sz)" "nat (p + 4 + sz) \<le> ?cap"
    "int (nat (p + 4 + sz)) - int (nat (p + 4)) = sz"
    using py Cons.prems(2) by simp_all
  have w3: "(word_of_int (wrap64 (base + p)) :: 64 word) = word_of_int (base + p)"
    by (rule word_of_int_wrap64)
  have c1: "list_all (\<lambda>sz. 0 \<le> sz) (sz # szs)" using IH py(1) by simp
  have c2: "p + sum_list (map (\<lambda>sz. sz + 4) (sz # szs)) \<le> int ?cap"
    using sum by (simp add: algebra_simps)
  have c3: "offs = map (\<lambda>q. word_of_int (base + q)) (chunkPositions p (sz # szs))"
    using IH offs w3 by simp
  have c4: "map low bufs = map (\<lambda>q. nat (q + 4)) (chunkPositions p (sz # szs))"
    using IH bufs by simp
  have c5: "map (\<lambda>s. int (high s) - int (low s)) bufs = sz # szs"
    using IH bufs sl by simp
  have c6: "list_all (\<lambda>s. low s \<le> high s \<and> high s \<le> ?cap) bufs"
    using IH bufs sl by simp
  have c7: "map (\<lambda>s. take 4 (drop (low s - 4) bs')) bufs =
      map (\<lambda>sz. be32 (word_of_int sz)) (sz # szs)"
    using IH bufs hd' by simp
  show ?case using c1 c2 c3 c4 c5 c6 len tk c7 by blast
qed

lemma allocSize_acc:
  "list_all (\<lambda>sz. 0 \<le> sz) sizes \<Longrightarrow> 0 \<le> acc \<Longrightarrow>
   acc + sum_list (map (\<lambda>sz. sz + 4) sizes) < 2 ^ 63 \<Longrightarrow>
   foldl (\<lambda>size sz. wrap64 (size + wrap64 (sz + 4))) acc sizes =
     acc + sum_list (map (\<lambda>sz. sz + 4) sizes)"
proof (induction sizes arbitrary: acc)
  case Nil
  then show ?case by simp
next
  case (Cons sz szs)
  have nn: "0 \<le> sum_list (map (\<lambda>sz. sz + 4) szs)"
    using Cons.prems(1) by (intro sum_list_nonneg) (auto simp add: list_all_iff)
  have w1: "wrap64 (sz + 4) = sz + 4"
    using Cons.prems nn by (intro wrap64_id) simp_all
  have w2: "wrap64 (acc + (sz + 4)) = acc + (sz + 4)"
    using Cons.prems nn by (intro wrap64_id) simp_all
  have "foldl (\<lambda>size sz. wrap64 (size + wrap64 (sz + 4))) (acc + (sz + 4)) szs =
        acc + (sz + 4) + sum_list (map (\<lambda>sz. sz + 4) szs)"
    using Cons.prems nn by (intro Cons.IH) simp_all
  then show ?case by (simp add: w1 w2)
qed

lemma allocSize_sum:
  "list_all (\<lambda>sz. 0 \<le> sz) sizes \<Longrightarrow> sum_list (map (\<lambda>sz. sz + 4) sizes) < 2 ^ 63 \<Longrightarrow>
   allocSize sizes = sum_list (map (\<lambda>sz. sz + 4) sizes)"
  using allocSize_acc [of sizes 0] by (simp add: allocSize_def)

lemma Alloc_success_cases:
  assumes "Alloc fb sizes = Inr ((True, markedFull, offs, bufs), fb')"
    and "decodeState (state fb) = (isfull, reset, nw, off)"
  shows "\<not> isfull \<and> \<not> reset \<and> \<not> markedFull \<and>
    wrap64 (off + allocSize sizes) \<le> int (length (b fb)) \<and>
    (\<exists>bs. allocChunks (baseOffset fb) sizes off (b fb) = Inr (offs, bufs, bs) \<and>
      fb' = fb\<lparr> state := encodeState False (nw + 1) (wrap64 (off + allocSize sizes)), b := bs \<rparr>)"
  using assms by (auto simp add: Alloc_def Let_def split: if_splits sum.splits)

lemma Alloc_success_shape:
  assumes ok: "Alloc fb sizes = Inr ((True, markedFull, offs, bufs), fb')"
    and int64s: "list_all isInt64 sizes"
    and cap: "length (b fb) < 2 ^ 32"
    and dec: "decodeState (state fb) = (isfull, reset, nw, off)"
  shows "decodeState (state fb') =
           (False, False, take_bit 16 (nw + 1), off + sum_list (map (\<lambda>sz. sz + 4) sizes)) \<and>
         off + sum_list (map (\<lambda>sz. sz + 4) sizes) \<le> int (length (b fb)) \<and>
         offs = map (\<lambda>q. word_of_int (baseOffset fb + q)) (chunkPositions off sizes) \<and>
         map low bufs = map (\<lambda>q. nat (q + 4)) (chunkPositions off sizes) \<and>
         map (\<lambda>s. int (high s) - int (low s)) bufs = sizes \<and>
         list_all (\<lambda>s. low s \<le> high s \<and> high s \<le> length (b fb')) bufs \<and>
         map (\<lambda>s. take 4 (drop (low s - 4) (b fb'))) bufs =
           map (\<lambda>sz. be32 (word_of_int sz)) sizes \<and>
         list_all (\<lambda>sz. 0 \<le> sz \<and> sz < 2 ^ 32) sizes \<and>
         baseOffset fb' = baseOffset fb \<and> length (b fb') = length (b fb)"
proof -
  let ?sum = "sum_list (map (\<lambda>sz. sz + 4) sizes)"
  let ?new = "wrap64 (off + allocSize sizes)"
  from Alloc_success_cases [OF ok dec] obtain bs where
    le: "?new \<le> int (length (b fb))"
    and ch: "allocChunks (baseOffset fb) sizes off (b fb) = Inr (offs, bufs, bs)"
    and fb': "fb' = fb\<lparr> state := encodeState False (nw + 1) ?new, b := bs \<rparr>"
    by blast
  have bd: "0 \<le> nw" "nw < 2 ^ 16" "0 \<le> off" "off < 2 ^ 32"
    using decodeState_bounds [OF dec] by simp_all
  have cap63: "int (length (b fb)) < 2 ^ 63" using cap by simp
  note A = allocChunks_ok [OF ch bd(3) int64s cap63]
  have nn: "list_all (\<lambda>sz. 0 \<le> sz) sizes" using A by simp
  have sum0: "0 \<le> ?sum"
    using nn by (intro sum_list_nonneg) (auto simp add: list_all_iff)
  have new: "?new = off + ?sum"
  proof (cases "sizes = []")
    case True
    then show ?thesis using bd by (simp add: allocSize_def wrap64_id)
  next
    case False
    then have s: "off + ?sum \<le> int (length (b fb))" using A by simp
    then have "?sum < 2 ^ 63" using cap63 bd by simp
    then have "allocSize sizes = ?sum" using nn by (rule allocSize_sum [rotated])
    moreover have "wrap64 (off + ?sum) = off + ?sum"
      using s cap63 bd sum0 by (intro wrap64_id) simp_all
    ultimately show ?thesis by simp
  qed
  have new32: "0 \<le> off + ?sum" "off + ?sum < 2 ^ 32" "off + ?sum \<le> int (length (b fb))"
    using le new cap bd sum0 by simp_all
  have "nw + 1 < 2 ^ 30" using bd by simp
  then have "snd (snd (snd (decodeState (encodeState False (nw + 1) (off + ?sum))))) =
      take_bit 32 (off + ?sum)"
    using bd by (intro dec_off) simp_all
  moreover have "take_bit 32 (off + ?sum) = off + ?sum"
    using new32 by (intro take_bit_int_eq_self) simp_all
  ultimately have st: "decodeState (state fb') = (False, False, take_bit 16 (nw + 1), off + ?sum)"
    using dec_full [of False "nw + 1" "off + ?sum"] dec_reset [of False "nw + 1" "off + ?sum"]
      dec_nw [of False "nw + 1" "off + ?sum"]
    by (cases "decodeState (encodeState False (nw + 1) (off + ?sum))") (simp add: fb' new)
  have small: "list_all (\<lambda>sz. 0 \<le> sz \<and> sz < 2 ^ 32) sizes"
  proof -
    have "\<And>sz. sz \<in> set sizes \<Longrightarrow> sz + 4 \<le> ?sum"
      using nn by (intro member_le_sum_list) (auto simp add: list_all_iff)
    then show ?thesis using nn new32 bd by (fastforce simp add: list_all_iff)
  qed
  show ?thesis using st A small new32(3) by (simp add: fb')
qed

text \<open>
  Claim C5, for a buffer whose capacity is below \<open>2 ^ 32\<close> and whose writer count is
  below \<open>65535\<close>. When \<open>Alloc(sizes)\<close> returns with status \<open>true\<close> on a buffer whose
  state decodes to writer count \<open>nw\<close> and offset \<open>off\<close>:
  the new state is not full, its writer count is \<open>nw + 1\<close> (one more, however many
  chunks) and its offset is \<open>off\<close> plus the sum of \<open>size + 4\<close> over the chunks;
  chunk \<open>i\<close> is returned the log offset \<open>lssOffset(baseOffset + position)\<close>, where the
  positions start at \<open>off\<close> and advance by \<open>size + 4\<close>; its slice begins 4 bytes after
  its position, has length \<open>sizes[i]\<close> and lies within the slab; and the 4 bytes before
  the slice hold \<open>sizes[i]\<close> big-endian (each size is between \<open>0\<close> and \<open>2 ^ 32\<close>, so
  the header holds it exactly). The sizes are Go \<open>int\<close>s (\<open>isInt64\<close>).
\<close>

theorem Alloc_success_effect:
  assumes ok: "Alloc fb sizes = Inr ((True, markedFull, offs, bufs), fb')"
    and int64s: "list_all isInt64 sizes"
    and cap: "length (b fb) < 2 ^ 32"
    and dec: "decodeState (state fb) = (isfull, reset, nw, off)"
    and nw: "nw < 65535"
  shows "decodeState (state fb') =
           (False, False, nw + 1, off + sum_list (map (\<lambda>sz. sz + 4) sizes)) \<and>
         offs = map (\<lambda>q. word_of_int (baseOffset fb + q)) (chunkPositions off sizes) \<and>
         map low bufs = map (\<lambda>q. nat (q + 4)) (chunkPositions off sizes) \<and>
         map (\<lambda>s. int (high s) - int (low s)) bufs = sizes \<and>
         list_all (\<lambda>s. low s \<le> high s \<and> high s \<le> length (b fb')) bufs \<and>
         map (\<lambda>s. take 4 (drop (low s - 4) (b fb'))) bufs =
           map (\<lambda>sz. be32 (word_of_int sz)) sizes \<and>
         list_all (\<lambda>sz. 0 \<le> sz \<and> sz < 2 ^ 32) sizes \<and>
         baseOffset fb' = baseOffset fb \<and> length (b fb') = length (b fb)"
proof -
  have "0 \<le> nw" using decodeState_bounds [OF dec] by simp
  then have tb: "take_bit 16 (nw + 1) = nw + 1"
    using nw by (intro take_bit_int_eq_self) simp_all
  note S = Alloc_success_shape [OF ok int64s cap dec, unfolded tb]
  show ?thesis using S by blast
qed

text \<open>
  The theorem at a fresh 16-byte buffer and \<open>Alloc([2, 3])\<close>: offset 13, two writers,
  log offsets 0 and 6, headers \<open>00 00 00 02\<close> and \<open>00 00 00 03\<close>.
\<close>

theorem Alloc_success_effect_witness:
  "Alloc (newFlushBuffer 16) [2, 3] =
     Inr ((True, False, [0, 6], [\<lparr>low = 4, high = 6\<rparr>, \<lparr>low = 10, high = 13\<rparr>]),
          (newFlushBuffer 16)\<lparr> state := 55834574856,
             b := [0, 0, 0, 2, 0, 0, 0, 0, 0, 3, 0, 0, 0, 0, 0, 0] \<rparr>) \<and>
   list_all isInt64 [2, 3] \<and> length (b (newFlushBuffer 16)) < 2 ^ 32 \<and>
   decodeState (state (newFlushBuffer 16)) = (False, False, 1, 0) \<and> (1 :: int) < 65535 \<and>
   decodeState (55834574856 :: 64 word) = (False, False, 2, 13) \<and>
   map (\<lambda>s. take 4 (drop (low s - 4) [0, 0, 0, 2, 0, 0, 0, 0, 0, 3, 0, 0, 0, 0, 0, 0 :: byte]))
     [\<lparr>low = 4, high = 6\<rparr>, \<lparr>low = 10, high = 13\<rparr>] = [be32 2, be32 3]"
proof -
  have a: "Alloc (newFlushBuffer 16) [2, 3] =
     Inr ((True, False, [0, 6], [\<lparr>low = 4, high = 6\<rparr>, \<lparr>low = 10, high = 13\<rparr>]),
          (newFlushBuffer 16)\<lparr> state := 55834574856,
             b := [0, 0, 0, 2, 0, 0, 0, 0, 0, 3, 0, 0, 0, 0, 0, 0] \<rparr>)"
    by code_simp
  have i: "list_all isInt64 [2, 3]" by (simp add: isInt64_def)
  have c: "length (b (newFlushBuffer 16)) < 2 ^ 32" by (simp add: newFlushBuffer_def)
  have d: "decodeState (state (newFlushBuffer 16)) = (False, False, 1, 0)" by code_simp
  have n: "(1 :: int) < 65535" by simp
  show ?thesis
    using Alloc_success_effect [OF a i c d n] a i c d n by simp
qed

text \<open>
  Without the two bounds the claim fails. With \<open>65535\<close> writers a successful \<open>Alloc\<close>
  leaves a writer count of \<open>0\<close>: \<open>uint64(nw + 1) << 2\<close> carries into the void bits,
  which \<open>decodeState\<close> masks away. In a slab of \<open>2 ^ 32\<close> bytes a successful \<open>Alloc\<close>
  that ends at the slab's end leaves the offset \<open>0\<close>: \<open>uint64(offset) << 32\<close> drops
  bit 32.
\<close>

theorem Alloc_state_fields_wrap_counterexample:
  "(case Alloc ((newFlushBuffer 16)\<lparr> state := encodeState False 65535 0 \<rparr>) [1] of
      Inl e \<Rightarrow> False
    | Inr ((status, markedFull, offs, bufs), fb') \<Rightarrow>
        status \<and>
        fst (snd (snd (decodeState (encodeState False 65535 0)))) = 65535 \<and>
        fst (snd (snd (decodeState (state fb')))) = 0) \<and>
   (case Alloc ((newFlushBuffer 4294967296)\<lparr> state := encodeState False 1 4294967288 \<rparr>) [4] of
      Inl e \<Rightarrow> False
    | Inr ((status, markedFull, offs, bufs), fb') \<Rightarrow>
        status \<and>
        snd (snd (snd (decodeState (encodeState False 1 4294967288)))) = 4294967288 \<and>
        snd (snd (snd (decodeState (state fb')))) = 0)"
proof -
  have nw: "(case Alloc ((newFlushBuffer 16)\<lparr> state := encodeState False 65535 0 \<rparr>) [1] of
      Inl e \<Rightarrow> False
    | Inr ((status, markedFull, offs, bufs), fb') \<Rightarrow>
        status \<and>
        fst (snd (snd (decodeState (encodeState False 65535 0)))) = 65535 \<and>
        fst (snd (snd (decodeState (state fb')))) = 0)"
    by code_simp
  have big: "(case Alloc ((newFlushBuffer 4294967296)\<lparr> state := encodeState False 1 4294967288 \<rparr>)
               [4] of
      Inl e \<Rightarrow> False
    | Inr ((status, markedFull, offs, bufs), fb') \<Rightarrow>
        status \<and>
        snd (snd (snd (decodeState (encodeState False 1 4294967288)))) = 4294967288 \<and>
        snd (snd (snd (decodeState (state fb')))) = 0)"
    by (simp add: newFlushBuffer_def Alloc_def decodeState_def encodeState_def allocSize_def
        wrap64_def sliceOK_def Let_def)
  show ?thesis by (rule conjI [OF nw big])
qed

section \<open>Done, TryClose and Read on the state word\<close>

lemma decodeState_cases:
  obtains isfull reset nw off where "decodeState st = (isfull, reset, nw, off)"
    "0 \<le> nw" "nw < 2 ^ 16" "0 \<le> off" "off < 2 ^ 32"
proof -
  obtain isfull reset nw off where d: "decodeState st = (isfull, reset, nw, off)"
    by (cases "decodeState st") auto
  with decodeState_bounds [OF d] that show ?thesis by blast
qed

lemma Done_state:
  assumes "decodeState (state fb) = (isfull, reset, nw, off)" "1 \<le> nw"
  shows "decodeState (state (fst (Done fb))) = (isfull, False, nw - 1, off)"
proof -
  have "0 \<le> nw - 1" "nw - 1 < 2 ^ 16" "0 \<le> off" "off < 2 ^ 32"
    using decodeState_bounds [OF assms(1)] assms(2) by simp_all
  then show ?thesis
    using assms(1) by (simp add: Done_def decodeState_encodeState)
qed

lemma Done_fired: "snd (Done fb) = (nwriters fb = 1 \<and> IsFull fb)"
  by (cases "decodeState (state fb)") (simp add: Done_def nwriters_def IsFull_def)

lemma Done_frame: "baseOffset (fst (Done fb)) = baseOffset fb \<and> b (fst (Done fb)) = b fb"
  by (cases "decodeState (state fb)") (simp add: Done_def)

lemma Done_IsFull: "IsFull (fst (Done fb)) = IsFull fb"
proof -
  obtain isfull reset nw off where d: "decodeState (state fb) = (isfull, reset, nw, off)"
    by (cases "decodeState (state fb)") auto
  have "fst (decodeState (encodeState isfull (nw - 1) off)) = isfull" by (rule dec_full)
  then show ?thesis
    using d by (simp add: Done_def IsFull_def case_prod_beta)
qed

lemma Done_offset_ge: "offsetOf fb \<le> offsetOf (fst (Done fb))"
proof -
  obtain isfull reset nw off where d: "decodeState (state fb) = (isfull, reset, nw, off)"
    and bd: "0 \<le> off" "off < 2 ^ 32"
    by (rule decodeState_cases)
  have "take_bit 32 off \<le> snd (snd (snd (decodeState (encodeState isfull (nw - 1) off))))"
    by (rule dec_off_ge)
  moreover have "take_bit 32 off = off" using bd by (intro take_bit_int_eq_self) simp_all
  ultimately show ?thesis
    using d by (simp add: Done_def offsetOf_def case_prod_beta)
qed

lemma Done_nwriters: "1 \<le> nwriters fb \<Longrightarrow> nwriters (fst (Done fb)) = nwriters fb - 1"
proof -
  assume a: "1 \<le> nwriters fb"
  obtain isfull reset nw off where d: "decodeState (state fb) = (isfull, reset, nw, off)"
    by (cases "decodeState (state fb)") auto
  from a d have "1 \<le> nw" by (simp add: nwriters_def)
  from Done_state [OF d this] d show ?thesis by (simp add: nwriters_def)
qed

lemma TryClose_cases:
  "snd (TryClose fb thr) = fb \<or>
   (\<not> IsFull fb \<and> IsFull (snd (TryClose fb thr)) \<and>
    nwriters (snd (TryClose fb thr)) = nwriters fb \<and>
    offsetOf (snd (TryClose fb thr)) = offsetOf fb \<and>
    baseOffset (snd (TryClose fb thr)) = baseOffset fb \<and> b (snd (TryClose fb thr)) = b fb)"
proof -
  obtain isfull reset nw off where d: "decodeState (state fb) = (isfull, reset, nw, off)"
    and bd: "0 \<le> nw" "nw < 2 ^ 16" "0 \<le> off" "off < 2 ^ 32"
    by (rule decodeState_cases)
  show ?thesis
    using d bd
    by (simp add: TryClose_def Let_def IsFull_def nwriters_def offsetOf_def
        decodeState_encodeState)
qed

lemma Read_cases:
  assumes "Read fb off buf = Inr (res, buf', fb', fired)"
  shows "\<not> fired \<and> baseOffset fb' = baseOffset fb \<and> b fb' = b fb \<and>
    IsFull fb' = IsFull fb \<and> offsetOf fb \<le> offsetOf fb' \<and>
    (nwriters fb < 65535 \<longrightarrow> nwriters fb' = nwriters fb)"
proof -
  obtain isfull reset nw offset where d: "decodeState (state fb) = (isfull, reset, nw, offset)"
    and bd: "0 \<le> nw" "nw < 2 ^ 16" "0 \<le> offset" "offset < 2 ^ 32"
    by (rule decodeState_cases)
  show ?thesis
  proof (cases "0 < nw \<and> \<not> reset")
    case False
    then show ?thesis using assms d by (auto simp add: Read_def)
  next
    case True
    let ?fb1 = "fb\<lparr> state := encodeState isfull (nw + 1) offset \<rparr>"
    have r: "fb' = fst (Done ?fb1)" "fired = snd (Done ?fb1)"
      using assms d True
      by (auto simp add: Read_def Let_def case_prod_beta split: if_splits)
    have f1: "IsFull ?fb1 = IsFull fb"
      using d dec_full [of isfull "nw + 1" offset] by (simp add: IsFull_def case_prod_beta)
    have n1: "nwriters ?fb1 = take_bit 16 (nw + 1)"
      using dec_nw [of isfull "nw + 1" offset] by (simp add: nwriters_def case_prod_beta)
    have "nw + 1 < 2 ^ 30" using bd by simp
    then have "snd (snd (snd (decodeState (encodeState isfull (nw + 1) offset)))) = take_bit 32 offset"
      using bd by (intro dec_off) simp_all
    moreover have "take_bit 32 offset = offset" using bd by (intro take_bit_int_eq_self) simp_all
    ultimately have o1: "offsetOf ?fb1 = offsetOf fb"
      using d by (simp add: offsetOf_def case_prod_beta)
    have nf: "\<not> fired"
    proof (cases "nw = 65535")
      case True
      then have "nwriters ?fb1 = 0" using n1 by simp
      then show ?thesis by (simp add: r Done_fired)
    next
      case False
      then have "take_bit 16 (nw + 1) = nw + 1" using bd by (intro take_bit_int_eq_self) simp_all
      then show ?thesis using n1 True by (simp add: r Done_fired)
    qed
    have nwr: "nwriters fb < 65535 \<longrightarrow> nwriters fb' = nwriters fb"
    proof
      assume "nwriters fb < 65535"
      then have lt: "nw < 65535" using d by (simp add: nwriters_def)
      then have "take_bit 16 (nw + 1) = nw + 1" using bd by (intro take_bit_int_eq_self) simp_all
      then have "nwriters ?fb1 = nw + 1" using n1 by simp
      then have "nwriters (fst (Done ?fb1)) = nw" using bd Done_nwriters [of ?fb1] by simp
      then show "nwriters fb' = nwriters fb" using d by (simp add: r nwriters_def)
    qed
    show ?thesis
      using nf nwr Done_frame [of ?fb1] Done_IsFull [of ?fb1] f1 Done_offset_ge [of ?fb1] o1
      by (simp add: r)
  qed
qed

section \<open>The flush callback\<close>

lemma Alloc_view:
  assumes "Alloc fb sizes = Inr ((status, markedFull, offs, bufs), fb')"
  shows "(\<not> status \<and> fb' = fb \<and> offs = []) \<or>
    (\<not> status \<and> \<not> IsFull fb \<and> IsFull fb' \<and> nwriters fb' = nwriters fb \<and>
       offsetOf fb' = offsetOf fb \<and> baseOffset fb' = baseOffset fb \<and> b fb' = b fb \<and> offs = []) \<or>
    (status \<and> \<not> IsFull fb \<and> \<not> IsFull fb' \<and>
       nwriters fb' = take_bit 16 (nwriters fb + 1))"
proof -
  obtain isfull reset nw off where d: "decodeState (state fb) = (isfull, reset, nw, off)"
    and bd: "0 \<le> nw" "nw < 2 ^ 16" "0 \<le> off" "off < 2 ^ 32"
    by (rule decodeState_cases)
  show ?thesis
  proof (cases status)
    case True
    from assms True have "Alloc fb sizes = Inr ((True, markedFull, offs, bufs), fb')"
      by simp
    from Alloc_success_cases [OF this d] obtain bs where
      nf: "\<not> isfull"
      and fb': "fb' = fb\<lparr> state := encodeState False (nw + 1)
                  (wrap64 (off + allocSize sizes)), b := bs \<rparr>"
      by blast
    have "IsFull fb' = False"
      using dec_full [of False "nw + 1" "wrap64 (off + allocSize sizes)"]
      by (simp add: fb' IsFull_def case_prod_beta)
    moreover have "nwriters fb' = take_bit 16 (nw + 1)"
      using dec_nw [of False "nw + 1" "wrap64 (off + allocSize sizes)"]
      by (simp add: fb' nwriters_def case_prod_beta)
    ultimately show ?thesis using True nf d by (simp add: IsFull_def nwriters_def)
  next
    case False
    show ?thesis
    proof (cases "isfull \<or> reset")
      case True
      then show ?thesis using assms d False by (auto simp add: Alloc_def)
    next
      case nfr: False
      then have fb': "fb' = fb\<lparr> state := encodeState True nw off \<rparr>" and "offs = []"
        using assms d False
        by (auto simp add: Alloc_def Let_def split: if_splits sum.splits)
      then show ?thesis
        using nfr d bd False
        by (simp add: IsFull_def nwriters_def offsetOf_def decodeState_encodeState)
    qed
  qed
qed

lemma step_callbacks:
  assumes J: "\<not> IsFull (buffer r) \<longrightarrow> 1 \<le> nwriters (buffer r)"
      "callbacks r = (if IsFull (buffer r) \<and> nwriters (buffer r) = 0 then 1 else 0)"
    and h: "holdsCount (buffer r) x"
    and s: "step r x = Inr r'"
  shows "(\<not> IsFull (buffer r') \<longrightarrow> 1 \<le> nwriters (buffer r')) \<and>
      callbacks r' = (if IsFull (buffer r') \<and> nwriters (buffer r') = 0 then 1 else 0)"
proof (cases x)
  case (OpAlloc sizes)
  then obtain status markedFull offs bufs fb' where
    a: "Alloc (buffer r) sizes = Inr ((status, markedFull, offs, bufs), fb')"
    and r': "buffer r' = fb'" "callbacks r' = callbacks r"
    using s by (auto split: sum.splits)
  have lt: "nwriters (buffer r) < 65535" using h OpAlloc by simp
  have ge: "0 \<le> nwriters (buffer r)"
    by (rule decodeState_cases [of "state (buffer r)"]) (simp add: nwriters_def)
  have "take_bit 16 (nwriters (buffer r) + 1) = nwriters (buffer r) + 1"
    using lt ge by (intro take_bit_int_eq_self) simp_all
  then show ?thesis using Alloc_view [OF a] J r' ge by auto
next
  case (OpTryClose thr)
  then have r': "buffer r' = snd (TryClose (buffer r) thr)" "callbacks r' = callbacks r"
    using s by auto
  show ?thesis using TryClose_cases [of "buffer r" thr] J r' by auto
next
  case (OpRead off buf)
  then obtain res buf' fb' fired where
    a: "Read (buffer r) off buf = Inr (res, buf', fb', fired)"
    and r': "buffer r' = fb'" "callbacks r' = callbacks r + (if fired then 1 else 0)"
    using s by (auto split: sum.splits)
  have lt: "nwriters (buffer r) < 65535" using h OpRead by simp
  show ?thesis using Read_cases [OF a] lt J r' by auto
next
  case OpDone
  then have r': "buffer r' = fst (Done (buffer r))"
    "callbacks r' = callbacks r + (if snd (Done (buffer r)) then 1 else 0)"
    using s by (auto simp add: case_prod_beta)
  have hc: "1 \<le> nwriters (buffer r)" "IsFull (buffer r) \<or> 2 \<le> nwriters (buffer r)"
    using h OpDone by simp_all
  show ?thesis
    using Done_nwriters [OF hc(1)] Done_IsFull [of "buffer r"] Done_fired [of "buffer r"] hc J r'
    by auto
qed

lemma run_callbacks:
  "run r xs = Inr r' \<Longrightarrow> obeys r xs \<Longrightarrow>
   \<not> IsFull (buffer r) \<longrightarrow> 1 \<le> nwriters (buffer r) \<Longrightarrow>
   callbacks r = (if IsFull (buffer r) \<and> nwriters (buffer r) = 0 then 1 else 0) \<Longrightarrow>
   callbacks r' = (if IsFull (buffer r') \<and> nwriters (buffer r') = 0 then 1 else 0)"
proof (induction xs arbitrary: r)
  case Nil
  then show ?case by simp
next
  case (Cons x xs)
  from Cons.prems(1) obtain r1 where s: "step r x = Inr r1" and rest: "run r1 xs = Inr r'"
    by (auto split: sum.splits)
  have h: "holdsCount (buffer r) x" and o: "obeys r1 xs"
    using Cons.prems(2) s by simp_all
  note J = step_callbacks [OF Cons.prems(3) Cons.prems(4) h s]
  show ?case using Cons.IH [OF rest o] J by blast
qed

text \<open>
  Claim C2, for callers that follow the store's use of the writer count
  (\<open>holdsCount\<close>, checked at every step by \<open>obeys\<close>). A \<open>Done\<close> called with a count
  of at least one leaves the full bit and the offset as they are and the count one
  lower; \<open>Done\<close> invokes the callback exactly when it finds the count \<open>1\<close> and the
  full bit set. Over any run of \<open>Alloc\<close>, \<open>TryClose\<close>, \<open>Read\<close> and \<open>Done\<close> that
  returns, on a buffer that starts with at least one writer and no callback yet, the
  callback has been invoked once if the buffer is full with no writer left, and not at
  all otherwise: never before that, and never a second time.
\<close>

theorem Done_fires_callback_once:
  "(decodeState (state fb) = (isfull, reset, nw, off) \<longrightarrow> 1 \<le> nw \<longrightarrow>
      decodeState (state (fst (Done fb))) = (isfull, False, nw - 1, off)) \<and>
   snd (Done fb) = (nwriters fb = 1 \<and> IsFull fb) \<and>
   (run r0 xs = Inr r \<longrightarrow> obeys r0 xs \<longrightarrow> callbacks r0 = 0 \<longrightarrow>
      1 \<le> nwriters (buffer r0) \<longrightarrow>
      callbacks r = (if IsFull (buffer r) \<and> nwriters (buffer r) = 0 then 1 else 0))"
proof (intro conjI impI)
  assume "decodeState (state fb) = (isfull, reset, nw, off)" "1 \<le> nw"
  then show "decodeState (state (fst (Done fb))) = (isfull, False, nw - 1, off)"
    by (rule Done_state)
next
  show "snd (Done fb) = (nwriters fb = 1 \<and> IsFull fb)" by (rule Done_fired)
next
  assume a: "run r0 xs = Inr r" "obeys r0 xs" "callbacks r0 = 0" "1 \<le> nwriters (buffer r0)"
  show "callbacks r = (if IsFull (buffer r) \<and> nwriters (buffer r) = 0 then 1 else 0)"
    using a(3) a(4) by (intro run_callbacks [OF a(1) a(2)]) simp_all
qed

text \<open>
  A run that reserves, reads back, closes, and releases both counts: one callback.
\<close>

theorem Done_fires_callback_once_witness:
  "decodeState (state (newFlushBuffer 16)) = (False, False, 1, 0) \<and> (1 :: int) \<le> 1 \<and>
   decodeState (state (fst (Done (newFlushBuffer 16)))) = (False, False, 0, 0) \<and>
   \<not> snd (Done (newFlushBuffer 16)) \<and>
   run \<lparr>buffer = newFlushBuffer 16, callbacks = 0, reserved = []\<rparr>
     [OpAlloc [2], OpRead 0 [0, 0], OpTryClose 0, OpDone, OpDone] =
     Inr \<lparr>buffer =
            \<lparr>seqno = 0, baseOffset = 0, state = 25769803777,
               b = [0, 0, 0, 2, 0, 0, 0, 0, 0, 0, 0, 0, 0, 0, 0, 0],
               doCommit = False, trimOffset = 0\<rparr>,
          callbacks = 1, reserved = [[(0, 2)]]\<rparr> \<and>
   obeys \<lparr>buffer = newFlushBuffer 16, callbacks = 0, reserved = []\<rparr>
     [OpAlloc [2], OpRead 0 [0, 0], OpTryClose 0, OpDone, OpDone] \<and>
   decodeState 25769803777 = (True, False, 0, 6)"
proof -
  let ?ini = "\<lparr>buffer = newFlushBuffer 16, callbacks = 0, reserved = []\<rparr>"
  let ?xs = "[OpAlloc [2], OpRead 0 [0, 0], OpTryClose 0, OpDone, OpDone]"
  let ?fb = "\<lparr>seqno = 0, baseOffset = 0, state = 25769803777,
               b = [0, 0, 0, 2, 0, 0, 0, 0, 0, 0, 0, 0, 0, 0, 0, 0],
               doCommit = False, trimOffset = 0\<rparr>"
  let ?fin = "\<lparr>buffer = ?fb, callbacks = 1, reserved = [[(0, 2)]]\<rparr>"
  have d: "decodeState (state (newFlushBuffer 16)) = (False, False, 1, 0)" by code_simp
  have n: "(1 :: int) \<le> 1" by simp
  have a: "run ?ini ?xs = Inr ?fin" by code_simp
  have o: "obeys ?ini ?xs" by code_simp
  have c: "callbacks ?ini = 0" by simp
  have w: "1 \<le> nwriters (buffer ?ini)" by code_simp
  have s: "decodeState 25769803777 = (True, False, 0, 6)" by code_simp
  note T = Done_fires_callback_once [of "newFlushBuffer 16" False False 1 0 ?ini ?xs ?fin]
  have t1: "decodeState (state (fst (Done (newFlushBuffer 16)))) = (False, False, 0, 0)"
    using T d n by simp
  have t2: "\<not> snd (Done (newFlushBuffer 16))"
    using T d by (simp add: nwriters_def IsFull_def)
  have t3: "callbacks ?fin = (if IsFull (buffer ?fin) \<and> nwriters (buffer ?fin) = 0 then 1 else 0)"
    using T a o c w by blast
  show ?thesis using d n t1 t2 a o s by simp
qed

text \<open>
  Without the discipline the claim fails. On a new buffer, \<open>Done\<close> followed by
  \<open>TryClose(0)\<close> leaves the buffer full with no writer, and the callback was never
  invoked. A second \<open>Done\<close> on a count of \<open>0\<close> does not decrement it: the count reads
  \<open>65535\<close> afterwards.
\<close>

theorem Done_without_callback_counterexample:
  "(case run \<lparr>buffer = newFlushBuffer 16, callbacks = 0, reserved = []\<rparr>
            [OpDone, OpTryClose 0] of
      Inl e \<Rightarrow> False
    | Inr r \<Rightarrow> IsFull (buffer r) \<and> nwriters (buffer r) = 0 \<and> callbacks r = 0) \<and>
   nwriters (fst (Done (fst (Done (newFlushBuffer 16))))) = 65535"
  by code_simp

section \<open>Reservations of one buffer\<close>

lemma uint_word_of_int_small:
  "0 \<le> x \<Longrightarrow> x < 2 ^ 64 \<Longrightarrow> uint (word_of_int x :: 64 word) = x"
  by (simp add: uint_word_of_int_eq take_bit_int_eq_self)

lemma chunks_chain:
  "list_all (\<lambda>sz. 0 \<le> sz) sizes \<Longrightarrow> 0 \<le> base + p \<Longrightarrow>
   base + p + sum_list (map (\<lambda>sz. sz + 4) sizes) < 2 ^ 64 \<Longrightarrow>
   list_all (\<lambda>c. 0 \<le> snd c \<and> base + p \<le> uint (fst c) \<and>
               uint (fst c) + snd c + 4 \<le> base + p + sum_list (map (\<lambda>sz. sz + 4) sizes))
     (zip (map (\<lambda>q. word_of_int (base + q) :: 64 word) (chunkPositions p sizes)) sizes) \<and>
   sorted_wrt endsBefore
     (zip (map (\<lambda>q. word_of_int (base + q) :: 64 word) (chunkPositions p sizes)) sizes) \<and>
   consecutive
     (zip (map (\<lambda>q. word_of_int (base + q) :: 64 word) (chunkPositions p sizes)) sizes)"
proof (induction sizes arbitrary: p)
  case Nil
  then show ?case by simp
next
  case (Cons sz szs)
  let ?sum = "sum_list (map (\<lambda>sz. sz + 4) szs)"
  let ?rest = "zip (map (\<lambda>q. word_of_int (base + q) :: 64 word)
                  (chunkPositions (p + sz + 4) szs)) szs"
  have nn: "0 \<le> sz" "list_all (\<lambda>sz. 0 \<le> sz) szs" using Cons.prems(1) by simp_all
  have sum0: "0 \<le> ?sum"
    using nn by (intro sum_list_nonneg) (auto simp add: list_all_iff)
  have u: "uint (word_of_int (base + p) :: 64 word) = base + p"
    using Cons.prems nn sum0 by (intro uint_word_of_int_small) simp_all
  have p': "0 \<le> base + (p + sz + 4)" using Cons.prems(2) nn by simp
  have lt: "base + (p + sz + 4) + ?sum < 2 ^ 64" using Cons.prems(3) by (simp add: algebra_simps)
  note IH = Cons.IH [OF nn(2) p' lt]
  have all: "list_all (\<lambda>c. 0 \<le> snd c \<and> base + (p + sz + 4) \<le> uint (fst c) \<and>
       uint (fst c) + snd c + 4 \<le> base + (p + sz + 4) + ?sum) ?rest"
    using IH by simp
  have c1: "list_all (\<lambda>c. 0 \<le> snd c \<and> base + p \<le> uint (fst c) \<and>
       uint (fst c) + snd c + 4 \<le> base + p + (sz + 4 + ?sum)) ?rest"
    using all nn by (auto simp add: list_all_iff)
  have c2: "\<forall>c \<in> set ?rest. endsBefore (word_of_int (base + p), sz) c"
    using all u by (fastforce simp add: list_all_iff endsBefore_def simp del: of_int_add)
  have c3: "consecutive ((word_of_int (base + p), sz) # ?rest)"
  proof (cases szs)
    case Nil
    then show ?thesis by simp
  next
    case (Cons a list)
    have "uint (word_of_int (base + (p + sz + 4)) :: 64 word) = base + (p + sz + 4)"
      using p' lt sum0 by (intro uint_word_of_int_small) simp_all
    then show ?thesis using IH Cons u by (simp add: algebra_simps del: of_int_add)
  qed
  have c4: "0 \<le> sz \<and> base + p \<le> uint (word_of_int (base + p) :: 64 word) \<and>
      uint (word_of_int (base + p) :: 64 word) + sz + 4 \<le> base + p + (sz + 4 + ?sum)"
    using u nn sum0 by simp
  show ?case using c1 c2 c3 c4 IH by (simp del: of_int_add)
qed

lemma keptBelow_frame:
  assumes "keptBelow r" "reserved r' = reserved r" "baseOffset (buffer r') = baseOffset (buffer r)"
    "offsetOf (buffer r) \<le> offsetOf (buffer r')"
  shows "keptBelow r'"
proof -
  have "\<forall>c \<in> set (concat (reserved r')). 0 \<le> snd c \<and>
      uint (fst c) + snd c + 4 \<le> baseOffset (buffer r') + offsetOf (buffer r')"
  proof
    fix c
    assume "c \<in> set (concat (reserved r'))"
    then have "c \<in> set (concat (reserved r))" using assms(2) by simp
    then have "0 \<le> snd c \<and>
        uint (fst c) + snd c + 4 \<le> baseOffset (buffer r) + offsetOf (buffer r)"
      using assms(1) by (simp only: keptBelow_def list_all_iff)
    then show "0 \<le> snd c \<and>
        uint (fst c) + snd c + 4 \<le> baseOffset (buffer r') + offsetOf (buffer r')"
      using assms(3) assms(4) by simp
  qed
  then show ?thesis by (simp only: keptBelow_def list_all_iff)
qed

lemma step_reserved:
  assumes base: "0 \<le> baseOffset (buffer r)" "isInt64 (baseOffset (buffer r))"
    and cap: "length (b (buffer r)) < 2 ^ 32"
    and K: "keptBelow r" "sorted_wrt endsBefore (concat (reserved r))"
        "list_all consecutive (reserved r)"
    and x: "sizesInt64 x"
    and s: "step r x = Inr r'"
  shows "baseOffset (buffer r') = baseOffset (buffer r) \<and>
    length (b (buffer r')) = length (b (buffer r)) \<and>
    keptBelow r' \<and> sorted_wrt endsBefore (concat (reserved r')) \<and>
    list_all consecutive (reserved r')"
proof (cases x)
  case (OpTryClose thr)
  then have r': "buffer r' = snd (TryClose (buffer r) thr)" "reserved r' = reserved r"
    using s by auto
  have f: "baseOffset (buffer r') = baseOffset (buffer r)" "b (buffer r') = b (buffer r)"
    "offsetOf (buffer r) \<le> offsetOf (buffer r')"
    using TryClose_cases [of "buffer r" thr] r' by auto
  show ?thesis using keptBelow_frame [OF K(1) r'(2) f(1) f(3)] K f r' by simp
next
  case (OpRead off buf)
  then obtain res buf' fb' fired where
    a: "Read (buffer r) off buf = Inr (res, buf', fb', fired)"
    and r': "buffer r' = fb'" "reserved r' = reserved r"
    using s by (auto split: sum.splits)
  have f: "baseOffset (buffer r') = baseOffset (buffer r)" "b (buffer r') = b (buffer r)"
    "offsetOf (buffer r) \<le> offsetOf (buffer r')"
    using Read_cases [OF a] r' by auto
  show ?thesis using keptBelow_frame [OF K(1) r'(2) f(1) f(3)] K f r' by simp
next
  case OpDone
  then have r': "buffer r' = fst (Done (buffer r))" "reserved r' = reserved r"
    using s by (auto simp add: case_prod_beta)
  have f: "baseOffset (buffer r') = baseOffset (buffer r)" "b (buffer r') = b (buffer r)"
    "offsetOf (buffer r) \<le> offsetOf (buffer r')"
    using Done_frame [of "buffer r"] Done_offset_ge [of "buffer r"] r' by auto
  show ?thesis using keptBelow_frame [OF K(1) r'(2) f(1) f(3)] K f r' by simp
next
  case (OpAlloc sizes)
  then obtain status markedFull offs bufs fb' where
    a: "Alloc (buffer r) sizes = Inr ((status, markedFull, offs, bufs), fb')"
    and r': "buffer r' = fb'"
      "reserved r' = (if status then reserved r @ [zip offs sizes] else reserved r)"
    using s by (auto split: sum.splits)
  show ?thesis
  proof (cases status)
    case False
    then have f: "baseOffset (buffer r') = baseOffset (buffer r)" "b (buffer r') = b (buffer r)"
      "offsetOf (buffer r) \<le> offsetOf (buffer r')"
      using Alloc_view [OF a] r' by auto
    have rr: "reserved r' = reserved r" using False r' by simp
    show ?thesis using keptBelow_frame [OF K(1) rr f(1) f(3)] K f rr by simp
  next
    case True
    let ?fb = "buffer r"
    let ?sum = "sum_list (map (\<lambda>sz. sz + 4) sizes)"
    obtain isfull reset nw off where d: "decodeState (state ?fb) = (isfull, reset, nw, off)"
      and bd: "0 \<le> off" "off < 2 ^ 32"
      by (rule decodeState_cases)
    have i64: "list_all isInt64 sizes" using x OpAlloc by simp
    from a True have a': "Alloc ?fb sizes = Inr ((True, markedFull, offs, bufs), fb')" by simp
    note S = Alloc_success_shape [OF a' i64 cap d]
    have off: "offsetOf ?fb = off" using d by (simp add: offsetOf_def)
    have off': "offsetOf fb' = off + ?sum" using S by (simp add: offsetOf_def)
    have le: "off + ?sum \<le> int (length (b ?fb))" using S by simp
    have offs: "offs = map (\<lambda>q. word_of_int (baseOffset ?fb + q)) (chunkPositions off sizes)"
      using S by blast
    have nn: "list_all (\<lambda>sz. 0 \<le> sz) sizes" using S by (auto simp add: list_all_iff)
    have sum0: "0 \<le> ?sum"
      using nn by (intro sum_list_nonneg) (auto simp add: list_all_iff)
    have b0: "0 \<le> baseOffset ?fb + off" using base bd by simp
    have lt: "baseOffset ?fb + off + ?sum < 2 ^ 64"
      using base cap le by (simp add: isInt64_def)
    let ?new = "zip offs sizes"
    note C = chunks_chain [OF nn b0 lt, folded offs]
    have new_in: "list_all (\<lambda>c. 0 \<le> snd c \<and> baseOffset ?fb + off \<le> uint (fst c) \<and>
        uint (fst c) + snd c + 4 \<le> baseOffset ?fb + off + ?sum) ?new"
      using C by blast
    have new_sorted: "sorted_wrt endsBefore ?new" using C by blast
    have new_cons: "consecutive ?new" using C by blast
    have rr: "reserved r' = reserved r @ [?new]" using True r' by simp
    have f: "baseOffset (buffer r') = baseOffset ?fb" "length (b (buffer r')) = length (b ?fb)"
      using S r' by simp_all
    have old: "\<forall>c \<in> set (concat (reserved r)).
        0 \<le> snd c \<and> uint (fst c) + snd c + 4 \<le> baseOffset ?fb + off"
      using K(1) off by (simp only: keptBelow_def list_all_iff)
    have new: "\<forall>c \<in> set ?new. 0 \<le> snd c \<and> baseOffset ?fb + off \<le> uint (fst c) \<and>
        uint (fst c) + snd c + 4 \<le> baseOffset ?fb + off + ?sum"
      using new_in by (simp only: list_all_iff)
    have "\<forall>c \<in> set (concat (reserved r')). 0 \<le> snd c \<and>
        uint (fst c) + snd c + 4 \<le> baseOffset (buffer r') + offsetOf (buffer r')"
    proof
      fix c
      assume "c \<in> set (concat (reserved r'))"
      then consider "c \<in> set (concat (reserved r))" | "c \<in> set ?new"
        by (auto simp add: rr)
      then show "0 \<le> snd c \<and>
          uint (fst c) + snd c + 4 \<le> baseOffset (buffer r') + offsetOf (buffer r')"
      proof cases
        case 1
        then have "0 \<le> snd c \<and> uint (fst c) + snd c + 4 \<le> baseOffset ?fb + off"
          using old by blast
        then show ?thesis using sum0 off' f r'(1) by simp
      next
        case 2
        then have "0 \<le> snd c \<and> uint (fst c) + snd c + 4 \<le> baseOffset ?fb + off + ?sum"
          using new by blast
        then show ?thesis using off' f r'(1) by simp
      qed
    qed
    then have kb: "keptBelow r'" by (simp only: keptBelow_def list_all_iff)
    have cross: "\<forall>c1 \<in> set (concat (reserved r)). \<forall>c2 \<in> set ?new. endsBefore c1 c2"
    proof (intro ballI)
      fix c1 c2
      assume "c1 \<in> set (concat (reserved r))" "c2 \<in> set ?new"
      then have "uint (fst c1) + snd c1 + 4 \<le> baseOffset ?fb + off"
        "baseOffset ?fb + off \<le> uint (fst c2)"
        using old new by blast+
      then show "endsBefore c1 c2" by (simp add: endsBefore_def)
    qed
    have so: "sorted_wrt endsBefore (concat (reserved r'))"
      using K(2) new_sorted cross by (simp add: rr sorted_wrt_append)
    have co: "list_all consecutive (reserved r')"
      using K(3) new_cons by (simp add: rr)
    show ?thesis using f kb so co by simp
  qed
qed

lemma run_reserved:
  "run r xs = Inr r' \<Longrightarrow> 0 \<le> baseOffset (buffer r) \<Longrightarrow> isInt64 (baseOffset (buffer r)) \<Longrightarrow>
   length (b (buffer r)) < 2 ^ 32 \<Longrightarrow> list_all sizesInt64 xs \<Longrightarrow>
   keptBelow r \<Longrightarrow> sorted_wrt endsBefore (concat (reserved r)) \<Longrightarrow>
   list_all consecutive (reserved r) \<Longrightarrow>
   keptBelow r' \<and> sorted_wrt endsBefore (concat (reserved r')) \<and>
   list_all consecutive (reserved r')"
proof (induction xs arbitrary: r)
  case Nil
  then show ?case by simp
next
  case (Cons x xs)
  from Cons.prems(1) obtain r1 where s: "step r x = Inr r1" and rest: "run r1 xs = Inr r'"
    by (auto split: sum.splits)
  have x: "sizesInt64 x" and xs: "list_all sizesInt64 xs" using Cons.prems(5) by simp_all
  note P = step_reserved [OF Cons.prems(2) Cons.prems(3) Cons.prems(4) Cons.prems(6)
      Cons.prems(7) Cons.prems(8) x s]
  have b1: "0 \<le> baseOffset (buffer r1)" "isInt64 (baseOffset (buffer r1))"
    "length (b (buffer r1)) < 2 ^ 32"
    using P Cons.prems by simp_all
  show ?case using Cons.IH [OF rest b1 xs] P by blast
qed

text \<open>
  Claim C4, for a buffer whose capacity is below \<open>2 ^ 32\<close> and whose base offset is a
  log offset (not negative). Over any run of operations on the buffer that returns, the
  chunks of all successful reservations, in reservation order and within a reservation
  in chunk order, are such that every chunk's range \<open>[offset, offset + size + 4)\<close> ends
  at or before the offset of every later chunk (so the ranges are pairwise disjoint);
  the returned log offsets are strictly increasing; within one reservation each chunk's
  offset is the previous chunk's offset plus its size plus 4; and no size is negative.
\<close>

theorem reservations_disjoint_increasing:
  assumes "run r0 xs = Inr r"
    and "reserved r0 = []"
    and "0 \<le> baseOffset (buffer r0)" and "isInt64 (baseOffset (buffer r0))"
    and "length (b (buffer r0)) < 2 ^ 32"
    and "list_all sizesInt64 xs"
  shows "sorted_wrt endsBefore (concat (reserved r)) \<and>
         sorted_wrt (<) (map fst (concat (reserved r))) \<and>
         list_all consecutive (reserved r) \<and>
         list_all (\<lambda>c. 0 \<le> snd c) (concat (reserved r))"
proof -
  have k0: "keptBelow r0" "sorted_wrt endsBefore (concat (reserved r0))"
    "list_all consecutive (reserved r0)"
    using assms(2) by (simp_all add: keptBelow_def)
  note R = run_reserved [OF assms(1) assms(3) assms(4) assms(5) assms(6) k0]
  have nn': "\<forall>c \<in> set (concat (reserved r)). 0 \<le> snd c"
    using R by (simp only: keptBelow_def list_all_iff) blast
  then have nn: "list_all (\<lambda>c. 0 \<le> snd c) (concat (reserved r))"
    by (simp only: list_all_iff)
  have "sorted_wrt (\<lambda>c1 c2. fst c1 < fst c2) (concat (reserved r))"
  proof (rule sorted_wrt_mono_rel [of _ endsBefore])
    show "sorted_wrt endsBefore (concat (reserved r))" using R by simp
  next
    fix c1 c2
    assume "c1 \<in> set (concat (reserved r))" "c2 \<in> set (concat (reserved r))" "endsBefore c1 c2"
    then have "uint (fst c1) + snd c1 + 4 \<le> uint (fst c2)" and "0 \<le> snd c1"
      using nn' by (simp add: endsBefore_def, blast)
    then have "uint (fst c1) < uint (fst c2)" by simp
    then show "fst c1 < fst c2" by (simp add: word_less_def)
  qed
  then have "sorted_wrt (<) (map fst (concat (reserved r)))"
    by (simp only: sorted_wrt_map)
  then show ?thesis using R nn by simp
qed

text \<open>
  A run on a fresh 32-byte buffer with two successful reservations, a read, a release,
  an oversized request that closes the buffer, and a request refused after that.
\<close>

theorem reservations_disjoint_increasing_witness:
  "run \<lparr>buffer = newFlushBuffer 32, callbacks = 0, reserved = []\<rparr>
     [OpAlloc [2, 0], OpRead 0 [1, 1, 1], OpAlloc [1], OpDone, OpAlloc [20], OpAlloc [1]] =
     Inr \<lparr>buffer =
            \<lparr>seqno = 0, baseOffset = 0, state = 64424509449,
               b = [0, 0, 0, 2, 0, 0, 0, 0, 0, 0, 0, 0, 0, 1, 0, 0, 0, 0, 0, 0,
                    0, 0, 0, 0, 0, 0, 0, 0, 0, 0, 0, 0],
               doCommit = False, trimOffset = 0\<rparr>,
          callbacks = 0, reserved = [[(0, 2), (6, 0)], [(10, 1)]]\<rparr> \<and>
   (0 :: int) \<le> baseOffset (newFlushBuffer 32) \<and> isInt64 (baseOffset (newFlushBuffer 32)) \<and>
   length (b (newFlushBuffer 32)) < 2 ^ 32 \<and>
   list_all sizesInt64
     [OpAlloc [2, 0], OpRead 0 [1, 1, 1], OpAlloc [1], OpDone, OpAlloc [20], OpAlloc [1]] \<and>
   sorted_wrt endsBefore [(0, 2), (6, 0), (10, 1)] \<and>
   sorted_wrt (<) [0, 6, 10 :: 64 word] \<and>
   consecutive [(0, 2), (6, 0)] \<and> consecutive [(10, 1)]"
proof -
  let ?ini = "\<lparr>buffer = newFlushBuffer 32, callbacks = 0, reserved = []\<rparr>"
  let ?xs = "[OpAlloc [2, 0], OpRead 0 [1, 1, 1], OpAlloc [1], OpDone, OpAlloc [20], OpAlloc [1]]"
  let ?fin = "\<lparr>buffer =
            \<lparr>seqno = 0, baseOffset = 0, state = 64424509449,
               b = [0, 0, 0, 2, 0, 0, 0, 0, 0, 0, 0, 0, 0, 1, 0, 0, 0, 0, 0, 0,
                    0, 0, 0, 0, 0, 0, 0, 0, 0, 0, 0, 0],
               doCommit = False, trimOffset = 0\<rparr>,
          callbacks = 0, reserved = [[(0, 2), (6, 0)], [(10, 1)]]\<rparr>"
  have a: "run ?ini ?xs = Inr ?fin" by code_simp
  have e: "reserved ?ini = []" by simp
  have b0: "0 \<le> baseOffset (buffer ?ini)" by (simp add: newFlushBuffer_def)
  have b1: "isInt64 (baseOffset (buffer ?ini))" by (simp add: newFlushBuffer_def isInt64_def)
  have c: "length (b (buffer ?ini)) < 2 ^ 32" by (simp add: newFlushBuffer_def)
  have i: "list_all sizesInt64 ?xs" by (simp add: isInt64_def)
  note T = reservations_disjoint_increasing [OF a e b0 b1 c i]
  show ?thesis using T a b0 b1 c i by simp
qed

text \<open>
  In a slab of \<open>2 ^ 32\<close> bytes the claim fails: the second reservation ends at the
  slab's end, the 32-bit offset field wraps to \<open>0\<close>, and the third reservation is given
  log offset \<open>0\<close> again, inside the range of the first.
\<close>

theorem reservations_overlap_counterexample:
  "(case run \<lparr>buffer = newFlushBuffer 4294967296, callbacks = 0, reserved = []\<rparr>
            [OpAlloc [4294967284], OpAlloc [4], OpAlloc [4]] of
      Inl e \<Rightarrow> False
    | Inr r \<Rightarrow> reserved r = [[(0, 4294967284)], [(4294967288, 4)], [(0, 4)]])"
  by (simp add: newFlushBuffer_def Alloc_def decodeState_def encodeState_def allocSize_def
      wrap64_def sliceOK_def Let_def)

section \<open>Read\<close>

lemma Read_in_range:
  assumes dec: "decodeState (state fb) = (isfull, False, nw, offset)"
    and nw: "0 < nw" "nw < 65535"
    and base: "isInt64 (baseOffset fb)" "baseOffset fb + offset < 2 ^ 63"
    and range: "baseOffset fb \<le> off" "off < baseOffset fb + offset"
    and whole: "off - baseOffset fb + 4 +
                  uint (Uint32 (b fb) (nat (off - baseOffset fb))) \<le> int (length (b fb))"
  shows "Read fb off buf =
           Inr ((uint (Uint32 (b fb) (nat (off - baseOffset fb))), None),
                copy buf (take (nat (uint (Uint32 (b fb) (nat (off - baseOffset fb)))))
                            (drop (nat (off - baseOffset fb + 4)) (b fb))),
                fb\<lparr> state := encodeState isfull nw offset \<rparr>, False) \<and>
         decodeState (encodeState isfull nw offset) = (isfull, False, nw, offset)"
proof -
  let ?p = "off - baseOffset fb"
  let ?l = "uint (Uint32 (b fb) (nat ?p))"
  let ?fb1 = "fb\<lparr> state := encodeState isfull (nw + 1) offset \<rparr>"
  have bd: "0 \<le> nw" "nw < 2 ^ 16" "0 \<le> offset" "offset < 2 ^ 32"
    using decodeState_bounds [OF dec] by simp_all
  define lv where "lv = ?l"
  have l: "0 \<le> lv" "lv < 2 ^ 32"
    using uint_bounded [of "Uint32 (b fb) (nat ?p)"] by (simp_all add: lv_def)
  have whole': "?p + 4 + lv \<le> int (length (b fb))" using whole by (simp add: lv_def)
  have e: "wrap64 (baseOffset fb + offset) = baseOffset fb + offset"
    using base bd by (intro wrap64_id) (simp_all add: isInt64_def)
  have p: "0 \<le> ?p" "?p < 2 ^ 32" using range bd by simp_all
  have w1: "wrap64 ?p = ?p" using p by (intro wrap64_id) simp_all
  have w2: "wrap64 (?p + 4) = ?p + 4" using p by (intro wrap64_id) simp_all
  have w3: "wrap64 (?p + 4 + lv) = ?p + 4 + lv" using p l by (intro wrap64_id) simp_all
  have s1: "sliceOK ?p (?p + 4) (length (b fb))" using p l whole' by (simp add: sliceOK_def)
  have s2: "sliceOK (?p + 4) (?p + 4 + lv) (length (b fb))"
    using p l whole' by (simp add: sliceOK_def)
  have d1: "decodeState (state ?fb1) = (isfull, False, nw + 1, offset)"
    using bd nw by (simp add: decodeState_encodeState)
  have dn: "Done ?fb1 = (fb\<lparr> state := encodeState isfull nw offset \<rparr>, False)"
    using d1 nw by (simp add: Done_def)
  have "Read fb off buf =
      Inr ((?l, None), copy buf (take (nat ?l) (drop (nat (?p + 4)) (b fb))),
           fb\<lparr> state := encodeState isfull nw offset \<rparr>, False)"
    using dec nw range e w1 w2 w3 s1 s2 dn by (simp add: Read_def Let_def flip: lv_def)
  moreover have "decodeState (encodeState isfull nw offset) = (isfull, False, nw, offset)"
    using bd by (simp add: decodeState_encodeState)
  ultimately show ?thesis by simp
qed

lemma Read_refused:
  assumes "decodeState (state fb) = (isfull, reset, nw, offset)"
    and "nw = 0 \<or> reset"
  shows "Read fb off buf = Inr ((0, Some ErrFBReadFailed), buf, fb, False)"
  using assms by (auto simp add: Read_def)

text \<open>
  Claim C6, with the guard of the source (\<open>nw > 0 && !reset\<close>) and for an offset at
  which a whole record lies in the slab. On a buffer whose reset bit is clear, whose
  writer count is at least \<open>1\<close> and below \<open>65535\<close> and whose end offset
  \<open>baseOffset + offset\<close> is below \<open>2^63\<close>, for \<open>off\<close> with
  \<open>baseOffset \<le> off < baseOffset + offset\<close> such that the header at that position and
  the payload of the length it gives lie within the slab: \<open>Read(off, buf)\<close> returns
  that length and no error, \<open>buf\<close> holds the payload (as much of it as \<open>buf\<close> has
  room for), the \<open>Done\<close> it calls does not invoke the callback, and the state decodes
  as before the call: same full bit, same writer count, same offset. On a buffer whose
  writer count is zero or whose reset bit is set, \<open>Read\<close> returns \<open>0\<close> and
  \<open>errFBReadFailed\<close> for every \<open>off\<close>, and \<open>buf\<close> and the buffer with its state are
  as before; the callback is not invoked.
\<close>

theorem Read_in_range_succeeds:
  assumes dec: "decodeState (state fb) = (isfull, reset, nw, offset)"
  shows "(\<not> reset \<and> 0 < nw \<and> nw < 65535 \<and>
          isInt64 (baseOffset fb) \<and> baseOffset fb + offset < 2 ^ 63 \<and>
          baseOffset fb \<le> off \<and> off < baseOffset fb + offset \<and>
          off - baseOffset fb + 4 +
            uint (Uint32 (b fb) (nat (off - baseOffset fb))) \<le> int (length (b fb)) \<longrightarrow>
          Read fb off buf =
            Inr ((uint (Uint32 (b fb) (nat (off - baseOffset fb))), None),
                 copy buf (take (nat (uint (Uint32 (b fb) (nat (off - baseOffset fb)))))
                             (drop (nat (off - baseOffset fb + 4)) (b fb))),
                 fb\<lparr> state := encodeState isfull nw offset \<rparr>, False) \<and>
          decodeState (encodeState isfull nw offset) = (isfull, False, nw, offset)) \<and>
         (nw = 0 \<or> reset \<longrightarrow>
          Read fb off buf = Inr ((0, Some ErrFBReadFailed), buf, fb, False))"
proof (intro conjI impI)
  assume a: "\<not> reset \<and> 0 < nw \<and> nw < 65535 \<and>
          isInt64 (baseOffset fb) \<and> baseOffset fb + offset < 2 ^ 63 \<and>
          baseOffset fb \<le> off \<and> off < baseOffset fb + offset \<and>
          off - baseOffset fb + 4 +
            uint (Uint32 (b fb) (nat (off - baseOffset fb))) \<le> int (length (b fb))"
  have d: "decodeState (state fb) = (isfull, False, nw, offset)" using dec a by simp
  note R = Read_in_range [OF d, of off buf]
  show "Read fb off buf =
            Inr ((uint (Uint32 (b fb) (nat (off - baseOffset fb))), None),
                 copy buf (take (nat (uint (Uint32 (b fb) (nat (off - baseOffset fb)))))
                             (drop (nat (off - baseOffset fb + 4)) (b fb))),
                 fb\<lparr> state := encodeState isfull nw offset \<rparr>, False)"
    using R a by blast
  show "decodeState (encodeState isfull nw offset) = (isfull, False, nw, offset)"
    using R a by blast
next
  assume "nw = 0 \<or> reset"
  with dec show "Read fb off buf = Inr ((0, Some ErrFBReadFailed), buf, fb, False)"
    by (rule Read_refused)
qed

text \<open>
  Reading the second record of a 16-byte buffer that holds two; and a read on a buffer
  that was reset.
\<close>

theorem Read_in_range_succeeds_witness:
  "decodeState (55834574856 :: 64 word) = (False, False, 2, 13) \<and>
   (0 :: int) < 2 \<and> (2 :: int) < 65535 \<and> isInt64 0 \<and> (0 :: int) + 13 < 2 ^ 63 \<and>
   (0 :: int) \<le> 6 \<and> (6 :: int) < 0 + 13 \<and>
   Read \<lparr>seqno = 0, baseOffset = 0, state = 55834574856,
          b = [0, 0, 0, 2, 9, 8, 0, 0, 0, 3, 5, 6, 7, 0, 0, 0],
          doCommit = False, trimOffset = 0\<rparr> 6 [1, 1, 1, 1, 1] =
     Inr ((3, None), [5, 6, 7, 1, 1],
          \<lparr>seqno = 0, baseOffset = 0, state = 55834574856,
             b = [0, 0, 0, 2, 9, 8, 0, 0, 0, 3, 5, 6, 7, 0, 0, 0],
             doCommit = False, trimOffset = 0\<rparr>, False) \<and>
   decodeState (state (Reset (newFlushBuffer 16))) = (False, True, 1, 0) \<and>
   Read (Reset (newFlushBuffer 16)) 0 [7, 7] =
     Inr ((0, Some ErrFBReadFailed), [7, 7], Reset (newFlushBuffer 16), False)"
proof -
  let ?fb = "\<lparr>seqno = 0, baseOffset = 0, state = 55834574856,
          b = [0, 0, 0, 2, 9, 8, 0, 0, 0, 3, 5, 6, 7, 0, 0, 0],
          doCommit = False, trimOffset = 0\<rparr>"
  have d: "decodeState (state ?fb) = (False, False, 2, 13)" by code_simp
  have n: "(0 :: int) < 2" "(2 :: int) < 65535" by simp_all
  have i: "isInt64 (baseOffset ?fb)" "baseOffset ?fb + 13 < 2 ^ 63" by (simp_all add: isInt64_def)
  have r: "baseOffset ?fb \<le> 6" "6 < baseOffset ?fb + 13" by simp_all
  have u: "uint (Uint32 (b ?fb) (nat (6 - baseOffset ?fb))) = 3" by code_simp
  have w: "6 - baseOffset ?fb + 4 + uint (Uint32 (b ?fb) (nat (6 - baseOffset ?fb)))
      \<le> int (length (b ?fb))"
    unfolding u by simp
  have c: "copy [1, 1, 1, 1, 1] (take (nat 3) (drop (nat (6 - baseOffset ?fb + 4)) (b ?fb)))
      = [5, 6, 7, 1, 1]" by code_simp
  have e: "encodeState False 2 13 = 55834574856" by code_simp
  have T: "Read ?fb 6 [1, 1, 1, 1, 1] =
             Inr ((3, None), [5, 6, 7, 1, 1], ?fb\<lparr> state := encodeState False 2 13 \<rparr>, False)"
    using Read_in_range_succeeds [OF d, of 6 "[1, 1, 1, 1, 1]", THEN conjunct1, unfolded u c]
          n i r w
    by simp
  have d2: "decodeState (state (Reset (newFlushBuffer 16))) = (False, True, 1, 0)" by code_simp
  have T2: "Read (Reset (newFlushBuffer 16)) 0 [7, 7] =
              Inr ((0, Some ErrFBReadFailed), [7, 7], Reset (newFlushBuffer 16), False)"
    using Read_in_range_succeeds [OF d2, of 0 "[7, 7]", THEN conjunct2] by simp
  show ?thesis using T T2 d d2 n i r e by (simp add: isInt64_def)
qed

text \<open>
  Without these conditions the claim fails. A buffer that was filled to offset 8,
  closed, released by both holders and reset has base offset \<open>0\<close> and state offset \<open>8\<close>,
  and \<open>Read(0, buf)\<close> returns \<open>errFBReadFailed\<close>. On an open buffer with one writer and
  state offset \<open>8\<close>: when the header at \<open>off\<close> gives a length of \<open>100\<close> bytes in a slab of
  \<open>16\<close>, \<open>Read\<close> panics on the slice bounds; and when the base offset is \<open>2^63 - 4\<close>,
  the end offset wraps and \<open>Read\<close> at the base offset returns \<open>errFBReadFailed\<close>.
\<close>

theorem Read_refused_counterexample:
  "(case Alloc (newFlushBuffer 16) [4] of
      Inl e \<Rightarrow> False
    | Inr (res, fb1) \<Rightarrow>
        (case Read (Reset (fst (Done (fst (Done (snd (TryClose fb1 0))))))) 0 [0, 0, 0, 0] of
           Inl e \<Rightarrow> False
         | Inr ((l, err), buf', fb', fired) \<Rightarrow>
             err = Some ErrFBReadFailed \<and> baseOffset fb' = 0 \<and> offsetOf fb' = 8)) \<and>
   decodeState (34359738372 :: 64 word) = (False, False, 1, 8) \<and>
   Read \<lparr>seqno = 0, baseOffset = 0, state = 34359738372,
          b = [0, 0, 0, 100, 1, 2, 3, 4, 0, 0, 0, 0, 0, 0, 0, 0],
          doCommit = False, trimOffset = 0\<rparr> 0 [0, 0, 0, 0] = Inl SliceBoundsOutOfRange \<and>
   Read \<lparr>seqno = 0, baseOffset = 9223372036854775804, state = 34359738372,
          b = [0, 0, 0, 4, 1, 2, 3, 4, 0, 0, 0, 0, 0, 0, 0, 0],
          doCommit = False, trimOffset = 0\<rparr> 9223372036854775804 [0, 0, 0, 0] =
     Inr ((0, Some ErrFBReadFailed), [0, 0, 0, 0],
          \<lparr>seqno = 0, baseOffset = 9223372036854775804, state = 34359738372,
             b = [0, 0, 0, 4, 1, 2, 3, 4, 0, 0, 0, 0, 0, 0, 0, 0],
             doCommit = False, trimOffset = 0\<rparr>, False)"
  by code_simp

section \<open>Reservations larger than a buffer\<close>

lemma Alloc_oversize:
  assumes dec: "decodeState (state fb) = (False, False, nw, off)"
    and i64: "isInt64 sz"
    and over: "int (length (b fb)) < sz + 4"
    and nowrap: "off + (sz + 4) < 2 ^ 63"
  shows "Alloc fb [sz] = Inr ((False, True, [], []), fb\<lparr> state := encodeState True nw off \<rparr>)"
proof -
  have bd: "0 \<le> off" using decodeState_bounds [OF dec] by simp
  have w1: "wrap64 (sz + 4) = sz + 4"
    using i64 nowrap bd by (intro wrap64_id) (simp_all add: isInt64_def)
  have w2: "wrap64 (off + (sz + 4)) = off + (sz + 4)"
    using over nowrap bd by (intro wrap64_id) simp_all
  show ?thesis
    using dec over bd by (simp add: Alloc_def allocSize_def w1 w2 Let_def)
qed

lemma Alloc_too_large_fails:
  assumes a: "Alloc fb [sz] = Inr ((status, markedFull, offs, bufs), fb')"
    and i64: "isInt64 sz"
    and over: "int (length (b fb)) < sz + 4"
    and len: "int (length (b fb)) < 2 ^ 63"
  shows "\<not> status \<and> length (b fb') = length (b fb)"
proof (cases status)
  case False
  then show ?thesis using Alloc_view [OF a] by auto
next
  case True
  obtain isfull reset nw off where d: "decodeState (state fb) = (isfull, reset, nw, off)"
    and bd: "0 \<le> off"
    by (rule decodeState_cases)
  from a True have "Alloc fb [sz] = Inr ((True, markedFull, offs, bufs), fb')" by simp
  from Alloc_success_cases [OF this d] obtain bs where
    "allocChunks (baseOffset fb) [sz] off (b fb) = Inr (offs, bufs, bs)" by blast
  from allocChunks_ok [OF this bd _ len] i64 have "off + (sz + 4) \<le> int (length (b fb))"
    by simp
  then show ?thesis using over bd by simp
qed

lemma caps_setBuffer:
  assumes "length (b fb) = length (b (ring s ! i))"
  shows "caps (setBuffer s i fb) = caps s"
proof (cases "i < length (ring s)")
  case True
  then show ?thesis
    using assms by (simp add: caps_def setBuffer_def map_update list_update_same_conv)
next
  case False
  then have "(ring s)[i := fb] = ring s" by (intro list_update_beyond) simp
  then show ?thesis by (simp add: caps_def setBuffer_def)
qed

lemma TryClose_b: "TryClose fb thr = (res, nfb) \<Longrightarrow> b nfb = b fb"
  using TryClose_cases [of fb thr] by auto

lemma Done_b: "Done fb = (fb1, fired) \<Longrightarrow> b fb1 = b fb"
  using Done_frame [of fb] by auto

lemma caps_length: "length (caps s) = length (ring s)"
  by (simp add: caps_def)

lemma setBuffer_simps [simp]:
  "tail (setBuffer s i fb) = tail s"
  "length (ring (setBuffer s i fb)) = length (ring s)"
  by (simp_all add: setBuffer_def)

lemma caps_updates [simp]:
  "caps (s\<lparr> log := l \<rparr>) = caps s"
  "caps (s\<lparr> bytesWritten := n \<rparr>) = caps s"
  "caps (s\<lparr> lssTrimOffset := t \<rparr>) = caps s"
  "caps (s\<lparr> head := h \<rparr>) = caps s"
  "caps (s\<lparr> tail := h \<rparr>) = caps s"
  by (simp_all add: caps_def)

lemma sameRing_refl [simp]: "sameRing s s"
  by (simp add: sameRing_def)

lemma sameRing_trans: "sameRing s s1 \<Longrightarrow> sameRing s1 s2 \<Longrightarrow> sameRing s s2"
  by (simp add: sameRing_def)

lemma sameRing_setBuffer:
  "length (b fb) = length (b (ring s ! i)) \<Longrightarrow> sameRing s (setBuffer s i fb)"
  by (simp add: sameRing_def caps_setBuffer)

lemma sameRing_fields [simp]:
  "sameRing s (s\<lparr> log := l \<rparr>)"
  "sameRing s (s\<lparr> bytesWritten := n \<rparr>)"
  "sameRing s (s\<lparr> lssTrimOffset := t \<rparr>)"
  "sameRing s (s\<lparr> head := h \<rparr>)"
  by (simp_all add: sameRing_def)

lemma initNextBuffer_sameRing:
  assumes "initNextBuffer s c = Some (Inr s')"
  shows "sameRing s s'"
proof -
  let ?nx = "nextIndex s c"
  let ?fb = "(ring s ! ?nx)\<lparr> baseOffset := EndOffset (ring s ! c),
      seqno := seqno (ring s ! c) + 1, state := encodeState False 2 0 \<rparr>"
  have s': "s' = (setBuffer s ?nx ?fb)\<lparr> tail := ?nx \<rparr>"
    using assms by (simp add: initNextBuffer_def Let_def split: if_splits)
  have "caps (setBuffer s ?nx ?fb) = caps s" by (intro caps_setBuffer) simp
  moreover have "tail s < length (ring s) \<longrightarrow> ?nx < length (ring s)"
  proof
    assume "tail s < length (ring s)"
    then have "0 < length (ring s)" by linarith
    then show "?nx < length (ring s)" by (simp add: nextIndex_def)
  qed
  ultimately show ?thesis by (simp add: s' sameRing_def)
qed

lemma flush_sameRing:
  assumes "flush s i = Some r"
  shows "\<forall>s'. r = Inr s' \<longrightarrow> sameRing s s'"
  using assms
proof (induct rule: flush.raw_induct [rotated, consumes 1, case_names 1])
  case (1 flush' s i sa)
  show ?case
  proof (intro allI impI)
    fix s'
    assume r: "sa = Inr s'"
    obtain bytes where bo: "Bytes (ring s ! i) = Inr bytes"
      using 1(2) r by (auto split: sum.splits)
    define fb where "fb = ring s ! i"
    define s1 where "s1 = s\<lparr> log := Append (log s) bytes,
                        bytesWritten := wrap64 (bytesWritten s + int (length bytes)) \<rparr>"
    define s2 where "s2 = (if 0 < trimOffset fb then s1\<lparr> lssTrimOffset := trimOffset fb \<rparr> else s1)"
    define s3 where "s3 = (if doCommit fb \<or> commitDue s2
                     then s2\<lparr> log := Commit (Trim (log s2) (sint (lssTrimOffset s2))) \<rparr>
                     else s2)"
    define s4 where "s4 = setBuffer s3 i (Reset fb)"
    define nx where "nx = nextIndex s4 i"
    define s5 where "s5 = s4\<lparr> head := nx \<rparr>"
    obtain closed endOff nfb where tc: "TryClose (ring s5 ! nx) forceFlushThreshold = ((closed, endOff), nfb)"
      by (cases "TryClose (ring s5 ! nx) forceFlushThreshold") auto
    define s6 where "s6 = setBuffer s5 nx nfb"
    have r3: "ring s3 = ring s" by (simp add: s3_def s2_def s1_def)
    have c3: "sameRing s s3" by (simp add: s3_def s2_def s1_def sameRing_def caps_def)
    have c4: "sameRing s3 s4"
      unfolding s4_def by (intro sameRing_setBuffer) (simp add: Reset_def fb_def r3)
    have c5: "sameRing s4 s5" by (simp add: s5_def)
    have c6: "sameRing s5 s6"
      unfolding s6_def using TryClose_b [OF tc] by (intro sameRing_setBuffer) simp
    have c: "sameRing s s6"
      using c3 c4 c5 c6 by (blast intro: sameRing_trans)
    have body: "(if closed then
                         (case initNextBuffer s6 nx of
                            None \<Rightarrow> None
                          | Some (Inl e) \<Rightarrow> Some (Inl e)
                          | Some (Inr s7) \<Rightarrow>
                              (case Done (ring s7 ! nx) of
                                 (fb8, fired) \<Rightarrow>
                                   Option.bind
                                     (if fired then flush' (setBuffer s7 nx fb8) nx
                                      else Some (Inr (setBuffer s7 nx fb8)))
                                     (\<lambda>r. case r of
                                        Inl e \<Rightarrow> Some (Inl e)
                                      | Inr s9 \<Rightarrow>
                                          (case Done (ring s9 ! nx) of
                                             (fb10, fired') \<Rightarrow>
                                               if fired' then flush' (setBuffer s9 nx fb10) nx
                                               else Some (Inr (setBuffer s9 nx fb10))))))
                       else
                         (case Done (ring s6 ! nx) of
                            (fb8, fired) \<Rightarrow>
                              if fired then flush' (setBuffer s6 nx fb8) nx
                              else Some (Inr (setBuffer s6 nx fb8)))) = Some (Inr s')"
      using 1(2) r bo tc
      unfolding s6_def s5_def nx_def s4_def s3_def s2_def s1_def fb_def
      by (simp add: Let_def)
    have step: "\<And>t fb1 fired t'. Done (ring t ! nx) = (fb1, fired) \<Longrightarrow>
        (if fired then flush' (setBuffer t nx fb1) nx else Some (Inr (setBuffer t nx fb1))) = Some (Inr t')
        \<Longrightarrow> sameRing t t'"
    proof -
      fix t fb1 fired t'
      assume d: "Done (ring t ! nx) = (fb1, fired)"
        and e: "(if fired then flush' (setBuffer t nx fb1) nx
                 else Some (Inr (setBuffer t nx fb1))) = Some (Inr t')"
      have a: "sameRing t (setBuffer t nx fb1)"
        using Done_b [OF d] by (intro sameRing_setBuffer) simp
      show "sameRing t t'"
      proof (cases fired)
        case True
        then have "flush' (setBuffer t nx fb1) nx = Some (Inr t')" using e by simp
        from 1(1) [OF this] have "sameRing (setBuffer t nx fb1) t'" by simp
        then show ?thesis using a by (blast intro: sameRing_trans)
      next
        case False
        then show ?thesis using e a by simp
      qed
    qed
    show "sameRing s s'"
    proof (cases closed)
      case False
      obtain fb8 fired where d: "Done (ring s6 ! nx) = (fb8, fired)"
        by (cases "Done (ring s6 ! nx)") auto
      have "sameRing s6 s'" using body False d by (intro step [OF d]) simp
      then show ?thesis using c by (blast intro: sameRing_trans)
    next
      case True
      then obtain s7 where i7: "initNextBuffer s6 nx = Some (Inr s7)"
        using body by (auto split: option.splits sum.splits)
      obtain fb8 fired where d: "Done (ring s7 ! nx) = (fb8, fired)"
        by (cases "Done (ring s7 ! nx)") auto
      have "Option.bind
              (if fired then flush' (setBuffer s7 nx fb8) nx
               else Some (Inr (setBuffer s7 nx fb8)))
              (\<lambda>r. case r of
                 Inl e \<Rightarrow> Some (Inl e)
               | Inr s9 \<Rightarrow>
                   (case Done (ring s9 ! nx) of
                      (fb10, fired') \<Rightarrow>
                        if fired' then flush' (setBuffer s9 nx fb10) nx
                        else Some (Inr (setBuffer s9 nx fb10)))) = Some (Inr s')"
        using body True i7 d by simp
      then obtain y where
        y1: "(if fired then flush' (setBuffer s7 nx fb8) nx
              else Some (Inr (setBuffer s7 nx fb8))) = Some y"
        and y2: "(case y of
                 Inl e \<Rightarrow> Some (Inl e)
               | Inr s9 \<Rightarrow>
                   (case Done (ring s9 ! nx) of
                      (fb10, fired') \<Rightarrow>
                        if fired' then flush' (setBuffer s9 nx fb10) nx
                        else Some (Inr (setBuffer s9 nx fb10)))) = Some (Inr s')"
        by (auto simp add: bind_eq_Some_conv)
      obtain s9 where ys: "y = Inr s9" using y2 by (cases y) auto
      have e9: "(if fired then flush' (setBuffer s7 nx fb8) nx
              else Some (Inr (setBuffer s7 nx fb8))) = Some (Inr s9)"
        using y1 ys by simp
      have rest: "(case Done (ring s9 ! nx) of
                     (fb10, fired') \<Rightarrow>
                       if fired' then flush' (setBuffer s9 nx fb10) nx
                       else Some (Inr (setBuffer s9 nx fb10))) = Some (Inr s')"
        using y2 ys by simp
      obtain fb10 fired' where d': "Done (ring s9 ! nx) = (fb10, fired')"
        by (cases "Done (ring s9 ! nx)") auto
      have "sameRing s6 s7" using i7 by (rule initNextBuffer_sameRing)
      moreover have "sameRing s7 s9" using e9 by (rule step [OF d])
      moreover have "sameRing s9 s'" using rest d' by (intro step [OF d']) simp
      ultimately show ?thesis using c by (blast intro: sameRing_trans)
    qed
  qed
qed

lemma DoneS_sameRing:
  assumes "DoneS s i = Some (Inr s')"
  shows "sameRing s s'"
proof -
  obtain fb1 fired where d: "Done (ring s ! i) = (fb1, fired)"
    by (cases "Done (ring s ! i)") auto
  have a: "sameRing s (setBuffer s i fb1)"
    using Done_b [OF d] by (intro sameRing_setBuffer) simp
  show ?thesis
  proof (cases fired)
    case True
    then have "flush (setBuffer s i fb1) i = Some (Inr s')"
      using assms d by (simp add: DoneS_def)
    from flush_sameRing [OF this] have "sameRing (setBuffer s i fb1) s'" by simp
    then show ?thesis using a by (blast intro: sameRing_trans)
  next
    case False
    then show ?thesis using assms d a by (simp add: DoneS_def)
  qed
qed

lemma ReserveSpaceMulti_too_large:
  assumes "ReserveSpaceMulti s sizes = Some y"
  shows "\<forall>sz. sizes = [sz] \<longrightarrow> isInt64 sz \<longrightarrow> tail s < length (ring s) \<longrightarrow>
    list_all (\<lambda>n. int n < sz + 4 \<and> int n < 2 ^ 63) (caps s) \<longrightarrow> (\<forall>x. y \<noteq> Inr x)"
  using assms
proof (induct rule: ReserveSpaceMulti.raw_induct [rotated, consumes 1, case_names 1])
  case (1 rsm s sizes y)
  show ?case
  proof (intro allI impI notI)
    fix sz x
    assume sz: "sizes = [sz]" and i64: "isInt64 sz" and t: "tail s < length (ring s)"
      and c: "list_all (\<lambda>n. int n < sz + 4 \<and> int n < 2 ^ 63) (caps s)"
      and y: "y = Inr x"
    let ?fb = "ring s ! tail s"
    have "length (b ?fb) \<in> set (caps s)" using t by (simp add: caps_def)
    then have cap: "int (length (b ?fb)) < sz + 4" "int (length (b ?fb)) < 2 ^ 63"
      using c by (auto simp add: list_all_iff)
    obtain success markedFull offsets bufs fb1 where
      a: "Alloc ?fb [sz] = Inr ((success, markedFull, offsets, bufs), fb1)"
      using 1(2) sz y by (auto simp add: Let_def split: sum.splits)
    note F = Alloc_too_large_fails [OF a i64 cap]
    let ?s1 = "setBuffer s (tail s) fb1"
    have r1: "sameRing s ?s1" using F by (intro sameRing_setBuffer) simp
    have keep: "\<And>s'. sameRing s s' \<Longrightarrow> tail s' < length (ring s') \<and>
        list_all (\<lambda>n. int n < sz + 4 \<and> int n < 2 ^ 63) (caps s')"
      using t c by (simp add: sameRing_def)
    show False
    proof (cases markedFull)
      case False
      then have "rsm ?s1 sizes = Some (Inr x)"
        using 1(2) sz y a F by (simp add: Let_def)
      from 1(1) [OF this] sz i64 keep [OF r1] show False by simp
    next
      case True
      then obtain s2 s3 where i2: "initNextBuffer ?s1 (tail s) = Some (Inr s2)"
        and d3: "DoneS s2 (tail s) = Some (Inr s3)"
        and rec: "rsm s3 sizes = Some (Inr x)"
        using 1(2) sz y a F by (auto simp add: Let_def split: option.splits sum.splits)
      have "sameRing s s3"
        using r1 initNextBuffer_sameRing [OF i2] DoneS_sameRing [OF d3]
        by (blast intro: sameRing_trans)
      from 1(1) [OF rec] sz i64 keep [OF this] show False by simp
    qed
  qed
qed

lemma isResetState_resetState: "isResetState (resetState st)"
proof -
  have "bit (st OR 2) (Suc 0)" by (simp add: bit_simps)
  then have "(st OR 2) AND 2 = 2" by (simp only: and2_iff)
  then show ?thesis by (simp add: isResetState_def resetState_def)
qed

lemma rotating_round:
  assumes inv: "rotating sz s" and i64: "isInt64 sz" and small: "sz + 4 < 2 ^ 63"
  shows "\<exists>fb1 s2 s3.
     Alloc (ring s ! tail s) [sz] = Inr ((False, True, [], []), fb1) \<and>
     initNextBuffer (setBuffer s (tail s) fb1) (tail s) = Some (Inr s2) \<and>
     DoneS s2 (tail s) = Some (Inr s3) \<and> rotating sz s3"
proof -
  obtain x y where ring: "ring s = [x, y]"
    using inv by (cases "ring s"; cases "tl (ring s)") (auto simp add: rotating_def)
  define t where "t = tail s"
  define n where "n = 1 - t"
  have "tail s < 2" using inv by (simp add: rotating_def)
  then have tc: "t = 0 \<or> t = 1" by (auto simp add: t_def)
  have t: "t < 2" "n < 2" "n \<noteq> t" "Suc t mod 2 = n" "1 - n = t"
    using tc by (auto simp add: n_def)
  let ?T = "ring s ! t"
  let ?N = "ring s ! n"
  have decT: "decodeState (state ?T) = (False, False, 1, 0)"
    and resN: "IsReset ?N"
    and capT: "int (length (b ?T)) < sz + 4" and capN: "int (length (b ?N)) < sz + 4"
    using inv tc by (auto simp add: rotating_def t_def [symmetric] n_def)
  define T1 where "T1 = ?T\<lparr> state := encodeState True 1 0 \<rparr>"
  have a: "Alloc ?T [sz] = Inr ((False, True, [], []), T1)"
    unfolding T1_def using decT i64 capT small by (intro Alloc_oversize) simp_all
  define N1 where "N1 = ?N\<lparr> baseOffset := EndOffset T1, seqno := seqno T1 + 1,
                             state := encodeState False 2 0 \<rparr>"
  define s2 where "s2 = (s\<lparr> ring := (ring s)[t := T1, n := N1] \<rparr>)\<lparr> tail := n \<rparr>"
  have len: "length (ring s) = 2" using ring by simp
  have i: "initNextBuffer (setBuffer s t T1) t = Some (Inr s2)"
    using resN t len
    by (simp add: initNextBuffer_def setBuffer_def nextIndex_def Let_def s2_def N1_def t_def)
  define T2 where "T2 = T1\<lparr> state := encodeState True 0 0 \<rparr>"
  have dT1: "Done T1 = (T2, True)"
    by (simp add: Done_def T1_def T2_def decodeState_encodeState)
  define N2 where "N2 = N1\<lparr> state := encodeState False 1 0 \<rparr>"
  have dN1: "Done N1 = (N2, False)"
    by (simp add: Done_def N1_def N2_def decodeState_encodeState)
  have tcN1: "TryClose N1 forceFlushThreshold = ((False, 0), N1)"
    by (simp add: TryClose_def N1_def decodeState_encodeState forceFlushThreshold_def)
  have byT2: "Bytes T2 = Inr []"
    by (simp add: Bytes_def T2_def decodeState_encodeState sliceOK_def)
  define s3 where "s3 = (let u = (setBuffer s2 t T2)\<lparr> log := Append (log s2) [],
                        bytesWritten := wrap64 (bytesWritten s2 + 0) \<rparr>;
                      v = (if 0 < trimOffset T2 then u\<lparr> lssTrimOffset := trimOffset T2 \<rparr> else u);
                      w = (if doCommit T2 \<or> commitDue v
                           then v\<lparr> log := Commit (Trim (log v) (sint (lssTrimOffset v))) \<rparr>
                           else v)
                  in setBuffer ((setBuffer w t (Reset T2))\<lparr> head := n \<rparr>) n N2)"
  have r2: "ring s2 = (ring s)[t := T1, n := N1]" "tail s2 = n" by (simp_all add: s2_def)
  have at2: "ring s2 ! t = T1" "ring s2 ! n = N1" "length (ring s2) = 2"
    using t len by (simp_all add: r2)
  have fl: "flush (setBuffer s2 t T2) t = Some (Inr s3)"
    apply (subst flush.simps)
    using t at2 byT2 tcN1 dN1
    apply (simp add: setBuffer_def nextIndex_def Let_def s3_def)
    done
  have d: "DoneS s2 t = Some (Inr s3)"
    using at2 dT1 fl by (simp add: DoneS_def)
  have ring3: "ring s3 = (ring s)[t := Reset T2, n := N2]" "tail s3 = n"
    using t len by (auto simp add: s3_def Let_def setBuffer_def r2 list_update_swap)
  have "rotating sz s3"
    using t len capT capN isResetState_resetState [of "state T2"]
    by (auto simp add: rotating_def ring3 N2_def N1_def T2_def T1_def Reset_def IsReset_def
        decodeState_encodeState less_2_cases_iff)
  then show ?thesis using a i d unfolding t_def by blast
qed

lemma rotating_never_returns:
  assumes "ReserveSpaceMulti s sizes = Some y"
  shows "\<forall>sz. sizes = [sz] \<longrightarrow> isInt64 sz \<longrightarrow> sz + 4 < 2 ^ 63 \<longrightarrow> rotating sz s \<longrightarrow> False"
  using assms
proof (induct rule: ReserveSpaceMulti.raw_induct [rotated, consumes 1, case_names 1])
  case (1 rsm s sizes y)
  show ?case
  proof (intro allI impI)
    fix sz
    assume sz: "sizes = [sz]" and i64: "isInt64 sz" and small: "sz + 4 < 2 ^ 63"
      and inv: "rotating sz s"
    from rotating_round [OF inv i64 small] obtain fb1 s2 s3 where
      a: "Alloc (ring s ! tail s) [sz] = Inr ((False, True, [], []), fb1)"
      and i: "initNextBuffer (setBuffer s (tail s) fb1) (tail s) = Some (Inr s2)"
      and d: "DoneS s2 (tail s) = Some (Inr s3)"
      and inv3: "rotating sz s3"
      by blast
    have "rsm s3 sizes = Some y" using 1(2) sz a i d by (simp add: Let_def)
    from 1(1) [OF this] sz i64 small inv3 show False by blast
  qed
qed

lemma rotating_None:
  assumes "rotating sz s" "isInt64 sz" "sz + 4 < 2 ^ 63"
  shows "ReserveSpaceMulti s [sz] = None"
proof (cases "ReserveSpaceMulti s [sz]")
  case None
  then show ?thesis .
next
  case (Some y)
  from rotating_never_returns [OF this] assms show ?thesis by blast
qed

text \<open>
  Claim C7, as the code has it. On a buffer that is neither full nor reset, \<open>Alloc\<close> of
  a single record whose size plus the 4-byte header exceeds the capacity and, added to
  the state offset of the buffer, stays below \<open>2^63\<close> (the sums are \<open>int\<close>s that do not
  overflow) returns status \<open>false\<close> with \<open>markedFull = true\<close> and no slices; it sets
  the full bit and changes nothing else, so nothing of the record is written.
  \<open>ReserveSpaceMulti\<close> has no error result and does not hand the failure to its caller:
  it moves on to the next buffer and tries again. In a store all of whose buffers are too
  small it never returns a reservation; in a store of two buffers in the state in which
  \<open>newLSStore\<close> and every rotation leave it (\<open>rotating\<close>, where the state offset is
  \<open>0\<close>) the call, and with it \<open>ReserveSpace\<close>, does not return at all.
\<close>

theorem reservation_larger_than_buffer:
  "(decodeState (state fb) = (False, False, nw, off) \<longrightarrow> isInt64 sz \<longrightarrow>
      int (length (b fb)) < sz + 4 \<longrightarrow> off + (sz + 4) < 2 ^ 63 \<longrightarrow>
      Alloc fb [sz] = Inr ((False, True, [], []), fb\<lparr> state := encodeState True nw off \<rparr>)) \<and>
   (isInt64 sz \<longrightarrow> tail s < length (ring s) \<longrightarrow>
      list_all (\<lambda>n. int n < sz + 4 \<and> int n < 2 ^ 63) (caps s) \<longrightarrow>
      (ReserveSpaceMulti s [sz] = None \<or> (\<exists>e. ReserveSpaceMulti s [sz] = Some (Inl e)))) \<and>
   (isInt64 sz \<longrightarrow> sz + 4 < 2 ^ 63 \<longrightarrow> rotating sz s \<longrightarrow>
      ReserveSpaceMulti s [sz] = None \<and> ReserveSpace s sz = None)"
proof (intro conjI impI)
  assume "decodeState (state fb) = (False, False, nw, off)" "isInt64 sz"
    "int (length (b fb)) < sz + 4" "off + (sz + 4) < 2 ^ 63"
  then show "Alloc fb [sz] = Inr ((False, True, [], []), fb\<lparr> state := encodeState True nw off \<rparr>)"
    by (rule Alloc_oversize)
next
  assume a: "isInt64 sz" "tail s < length (ring s)"
    "list_all (\<lambda>n. int n < sz + 4 \<and> int n < 2 ^ 63) (caps s)"
  show "ReserveSpaceMulti s [sz] = None \<or> (\<exists>e. ReserveSpaceMulti s [sz] = Some (Inl e))"
  proof (cases "ReserveSpaceMulti s [sz]")
    case None
    then show ?thesis by simp
  next
    case (Some y)
    from ReserveSpaceMulti_too_large [OF this] a have "\<forall>x. y \<noteq> Inr x" by blast
    then obtain e where "y = Inl e" by (cases y) auto
    then show ?thesis using Some by simp
  qed
next
  assume a: "isInt64 sz" "sz + 4 < 2 ^ 63" "rotating sz s"
  show "ReserveSpaceMulti s [sz] = None" using a(3) a(1) a(2) by (rule rotating_None)
  then show "ReserveSpace s sz = None" by (simp add: ReserveSpace_def)
qed

text \<open>
  The theorem at a store of two fresh 8-byte buffers and a record of 5 bytes.
\<close>

theorem reservation_larger_than_buffer_witness:
  "decodeState (state (newFlushBuffer 8)) = (False, False, 1, 0) \<and> isInt64 5 \<and>
   int (length (b (newFlushBuffer 8))) < 5 + 4 \<and> (0 :: int) + (5 + 4) < 2 ^ 63 \<and>
   Alloc (newFlushBuffer 8) [5] =
     Inr ((False, True, [], []), (newFlushBuffer 8)\<lparr> state := encodeState True 1 0 \<rparr>) \<and>
   tail (newLSStore \<lparr>logData = [], logTrim = 0, logCommits = 0\<rparr> 8 2 False) <
     length (ring (newLSStore \<lparr>logData = [], logTrim = 0, logCommits = 0\<rparr> 8 2 False)) \<and>
   list_all (\<lambda>n. int n < 5 + 4 \<and> int n < 2 ^ 63)
     (caps (newLSStore \<lparr>logData = [], logTrim = 0, logCommits = 0\<rparr> 8 2 False)) \<and>
   (5 :: int) + 4 < 2 ^ 63 \<and>
   rotating 5 (newLSStore \<lparr>logData = [], logTrim = 0, logCommits = 0\<rparr> 8 2 False) \<and>
   ReserveSpaceMulti (newLSStore \<lparr>logData = [], logTrim = 0, logCommits = 0\<rparr> 8 2 False) [5] =
     None \<and>
   ReserveSpace (newLSStore \<lparr>logData = [], logTrim = 0, logCommits = 0\<rparr> 8 2 False) 5 = None"
proof -
  let ?s = "newLSStore \<lparr>logData = [], logTrim = 0, logCommits = 0\<rparr> 8 2 False"
  have d: "decodeState (state (newFlushBuffer 8)) = (False, False, 1, 0)" by code_simp
  have i: "isInt64 5" by (simp add: isInt64_def)
  have c: "int (length (b (newFlushBuffer 8))) < 5 + 4" by (simp add: newFlushBuffer_def)
  have n: "(0 :: int) + (5 + 4) < 2 ^ 63" "(5 :: int) + 4 < 2 ^ 63" by simp_all
  have t: "tail ?s < length (ring ?s)" by (simp add: newLSStore_def)
  have l: "list_all (\<lambda>n. int n < 5 + 4 \<and> int n < 2 ^ 63) (caps ?s)"
    by (simp add: newLSStore_def caps_def newFlushBuffer_def Reset_def)
  have r: "rotating 5 ?s" by code_simp
  note T = reservation_larger_than_buffer [of "newFlushBuffer 8" 1 0 5 ?s]
  have a: "Alloc (newFlushBuffer 8) [5] =
     Inr ((False, True, [], []), (newFlushBuffer 8)\<lparr> state := encodeState True 1 0 \<rparr>)"
    using T d i c n by blast
  have m: "ReserveSpaceMulti ?s [5] = None \<and> ReserveSpace ?s 5 = None"
    using T i n r by blast
  show ?thesis using d i c n a t l r m by simp
qed

text \<open>
  The claim promises an error returned to the caller. In a store of two fresh 16-byte
  buffers the reservation of a 100-byte record returns nothing: the call does not end.
  And a size whose sum with the header overflows \<open>int64\<close> is not refused by \<open>Alloc\<close>:
  for \<open>2^63 - 1\<close> bytes on a fresh 16-byte buffer the sum wraps below the capacity, the
  state is moved and the call panics on the bounds of the slice it reserves.
\<close>

theorem oversize_reservation_never_returns_counterexample:
  "ReserveSpaceMulti (newLSStore \<lparr>logData = [], logTrim = 0, logCommits = 0\<rparr> 16 2 False) [100] =
     None \<and>
   ReserveSpace (newLSStore \<lparr>logData = [], logTrim = 0, logCommits = 0\<rparr> 16 2 False) 100 = None \<and>
   Alloc (newFlushBuffer 16) [9223372036854775807] = Inl SliceBoundsOutOfRange"
proof -
  let ?s = "newLSStore \<lparr>logData = [], logTrim = 0, logCommits = 0\<rparr> 16 2 False"
  have r: "rotating 100 ?s" by code_simp
  have i: "isInt64 100" "(100 :: int) + 4 < 2 ^ 63" by (simp_all add: isInt64_def)
  have m: "ReserveSpaceMulti ?s [100] = None" using r i by (rule rotating_None)
  have a: "Alloc (newFlushBuffer 16) [9223372036854775807] = Inl SliceBoundsOutOfRange"
    by code_simp
  show ?thesis using m a by (simp add: ReserveSpace_def)
qed

section \<open>tryPageRemoval\<close>

text \<open>
  Claim C9. \<open>tryPageRemoval(pid, pg, ctx)\<close> looks the minimum item of \<open>pg\<close> up in the
  index. When the index has no node for it, or the node it has is not \<open>pid\<close>, the call
  returns at once, whatever number of retries it is allowed: it makes no call that
  changes a page, the mapping table, the index or the log, and the statistics, the
  reclaim list and everything else of the state are as before.
\<close>

theorem tryPageRemoval_removed_is_noop:
  assumes "Lookup env (MinItem env pg) (ext s) = (parent, cur, found)"
    and "\<not> found \<or> cur \<noteq> pid"
  shows "tryPageRemoval env k pid pg s = (Ret (), s)"
  using assms by (cases k) (auto simp add: tryPageRemoval_def tryPageRemovalTry_def)

text \<open>
  In the store in memory no page is indexed at first: removing page \<open>3\<close> does nothing.
\<close>

theorem tryPageRemoval_removed_is_noop_witness:
  "Lookup memEnv (MinItem memEnv emptyPage) (ext memInit) = (0, 0, False) \<and>
   tryPageRemoval memEnv 2 3 emptyPage memInit = (Ret (), memInit)"
proof -
  have l: "Lookup memEnv (MinItem memEnv emptyPage) (ext memInit) = (0, 0, False)"
    by (simp add: memEnv_def memLookup_def memInit_def)
  show ?thesis
    using tryPageRemoval_removed_is_noop [of memEnv emptyPage memInit 0 0 False 3 2] l by simp
qed

section \<open>The calls of indexPage and tryPageRemoval\<close>

lemmas callDefs =
  Compact_def Split_def Close_def pgMerge_def Marshal_def AddFlushRecord_def Unmarshal_def
  pgAppend_def setPrevHeadPtr_def pgReset_def free_def SwapIn_def UpdateMapping_def
  CreateMapping_def AllocPageId_def FreePageId_def ReadPage_def tryEvictPages_def
  trySMRObjects_def Insert4_def DeleteNode2_def setLink_def lssReserveSpaceMulti_def
  writeLSSBlock_def discardLSSBlock_def lssFinalizeWrite_def pageCall_def extCall_def
  extDo_def













section \<open>trySMOs\<close>

text \<open>
  Claim C8. \<open>trySMOs\<close> reaches the split when the page needs no compaction and its item
  count has reached \<open>MaxPageItems\<close>. When \<open>Split(splitPid)\<close> then returns \<open>nil\<close>, the
  call makes exactly five calls, in this order: \<open>AllocPageId\<close>, \<open>Split\<close>,
  \<open>FreePageId(splitPid)\<close>, \<open>Compact\<close> on the page as \<open>Split\<close> left it, and
  \<open>UpdateMapping\<close> of \<open>pid\<close> to the compacted page. It returns what \<open>UpdateMapping\<close>
  returned. No page is marshalled, no log space is reserved, no mapping is created and
  nothing is inserted into the index. Of the statistics only \<open>FlushDataSz\<close> changes, by
  the stale size that \<open>Compact\<close> returned and only when the update succeeded: \<open>Splits\<close>
  and \<open>SplitConflicts\<close> are as before (and so is \<open>Compacts\<close>).
\<close>

theorem trySMOs_split_nil_compacts:
  assumes "\<not> NeedCompaction env pg (MaxDeltaChainLen (cfg env))"
    and "NeedSplit env pg (MaxPageItems (cfg env))"
    and "AllocPageId_fn env (ext s) = (splitPid, w1)"
    and "Split_fn env pg splitPid = (None, pg1)"
    and "Compact_fn env pg1 = (staleFdSz, pg2)"
    and "UpdateMapping_fn env pid pg2 (FreePageId_fn env splitPid w1) = (updated, w2)"
  shows "trySMOs env k pid pg doUpdate s =
           (Ret updated,
            s\<lparr> sts := (if updated
                        then (sts s)\<lparr> FlushDataSz := FlushDataSz (sts s) - staleFdSz \<rparr>
                        else sts s),
               calls := calls s @ [CallAllocPageId, CallSplit pg splitPid,
                                   CallFreePageId splitPid, CallCompact pg1,
                                   CallUpdateMapping pid pg2],
               ext := w2 \<rparr>) \<and>
         Splits (sts (snd (trySMOs env k pid pg doUpdate s))) = Splits (sts s) \<and>
         SplitConflicts (sts (snd (trySMOs env k pid pg doUpdate s))) = SplitConflicts (sts s) \<and>
         Compacts (sts (snd (trySMOs env k pid pg doUpdate s))) = Compacts (sts s) \<and>
         AllocSzIndex (sts (snd (trySMOs env k pid pg doUpdate s))) = AllocSzIndex (sts s)"
  using assms by (cases updated) (simp_all add: trySMOs_def callDefs Let_def)

text \<open>
  In the store in memory a page of eight items on a chain of one delta is at the
  split threshold, and \<open>Split\<close> returns \<open>nil\<close>.
\<close>

theorem trySMOs_split_nil_compacts_witness:
  "\<not> NeedCompaction memEnv (emptyPage\<lparr> mchain := 1, mitems := 8 \<rparr>) (MaxDeltaChainLen (cfg memEnv)) \<and>
   NeedSplit memEnv (emptyPage\<lparr> mchain := 1, mitems := 8 \<rparr>) (MaxPageItems (cfg memEnv)) \<and>
   fst (trySMOs memEnv 0 7 (emptyPage\<lparr> mchain := 1, mitems := 8 \<rparr>) False memInit) = Ret True \<and>
   calls (snd (trySMOs memEnv 0 7 (emptyPage\<lparr> mchain := 1, mitems := 8 \<rparr>) False memInit)) =
     [CallAllocPageId, CallSplit (emptyPage\<lparr> mchain := 1, mitems := 8 \<rparr>) 1, CallFreePageId 1,
      CallCompact (emptyPage\<lparr> mchain := 1, mitems := 8 \<rparr>),
      CallUpdateMapping 7 (emptyPage\<lparr> mchain := 0, mitems := 8 \<rparr>)] \<and>
   Splits (sts (snd (trySMOs memEnv 0 7 (emptyPage\<lparr> mchain := 1, mitems := 8 \<rparr>) False memInit))) = 0"
proof -
  let ?pg = "emptyPage\<lparr> mchain := 1, mitems := 8 \<rparr>"
  let ?w1 = "\<lparr> table = [], nextPid = 2, indexed = [] \<rparr>"
  have a: "\<not> NeedCompaction memEnv ?pg (MaxDeltaChainLen (cfg memEnv))"
    by (simp add: NeedCompaction_def memEnv_def emptyPage_def)
  have b: "NeedSplit memEnv ?pg (MaxPageItems (cfg memEnv))"
    by (simp add: NeedSplit_def memEnv_def emptyPage_def)
  have c: "AllocPageId_fn memEnv (ext memInit) = (1, ?w1)"
    by (simp add: memEnv_def memInit_def)
  have d: "Split_fn memEnv ?pg 1 = (None, ?pg)"
    by (simp add: memEnv_def)
  have e: "Compact_fn memEnv ?pg = (0, emptyPage\<lparr> mchain := 0, mitems := 8 \<rparr>)"
    by (simp add: memEnv_def emptyPage_def)
  have f: "UpdateMapping_fn memEnv 7 (emptyPage\<lparr> mchain := 0, mitems := 8 \<rparr>)
             (FreePageId_fn memEnv 1 ?w1) =
           (True, \<lparr> table = [(7, emptyPage\<lparr> mchain := 0, mitems := 8 \<rparr>)], nextPid = 2, indexed = [] \<rparr>)"
    by (simp add: memEnv_def setEntry_def)
  have z: "Splits (sts memInit) = 0" "calls memInit = []"
    by (simp_all add: memInit_def zeroStats_def)
  show ?thesis
    using trySMOs_split_nil_compacts [OF a b c d e f, of 0 False] a b z by simp
qed







section \<open>doRecovery\<close>














end
